theory Spec2Isabelle
  imports Complex_Main "HOL-Library.Sublist"
begin

section \<open>Arrays (lang/Array.js)\<close>

text \<open>
  JavaScript arrays are lists. \<open>Array.prototype.remove(element)\<close> looks the element up with
  \<open>indexOf\<close> (first occurrence) and splices it out; it returns whether it found it. The list
  after the call is \<^term>\<open>remove1 element xs\<close>. \<open>splice(i, 1)\<close> removes the element at
  position \<open>i\<close> and does nothing when \<open>i\<close> is past the end. \<open>pop()\<close> removes and returns the
  last element, and returns \<open>undefined\<close> (here \<open>None\<close>) on an empty array.
\<close>

definition remove_returns :: "'a \<Rightarrow> 'a list \<Rightarrow> bool" where
  "remove_returns element xs = (element \<in> set xs)"

definition splice1 :: "nat \<Rightarrow> 'a list \<Rightarrow> 'a list" where
  "splice1 i xs = take i xs @ drop (Suc i) xs"

definition pop :: "'a list \<Rightarrow> 'a option \<times> 'a list" where
  "pop xs = (if xs = [] then (None, []) else (Some (last xs), butlast xs))"

section \<open>Tree (data/Tree.js)\<close>

text \<open>
  Nodes are objects with identity: a reference is the position of the object in the store
  \<open>heap\<close>, in allocation order; objects are never freed. A node's \<open>tree\<close> field is the one
  tree of the state. \<open>nodes\<close> is the tree's node table, \<open>root_node\<close> its \<open>root\<close> field.
\<close>

type_synonym ref = nat

record node =
  outgoing :: "ref list"
  incoming :: "ref list"
  children :: "ref list"
  index :: nat
  parent :: "ref option"

record tree =
  heap :: "node list"
  nodes :: "ref list"
  root_node :: ref

definition obj :: "tree \<Rightarrow> ref \<Rightarrow> node" where
  "obj t r = heap t ! r"

definition upd :: "ref \<Rightarrow> (node \<Rightarrow> node) \<Rightarrow> tree \<Rightarrow> tree" where
  "upd r f t = t\<lparr>heap := (heap t)[r := f (heap t ! r)]\<rparr>"

text \<open>The constructor \<open>Tree._Node(tree, parent)\<close>: the new object and the updated tree.\<close>

definition Node :: "tree \<Rightarrow> ref option \<Rightarrow> ref \<times> tree" where
  "Node t par =
     (let this = length (heap t);
          n = \<lparr>outgoing = [], incoming = [], children = [],
               index = length (nodes t), parent = par\<rparr>
      in (this, t\<lparr>heap := heap t @ [n], nodes := nodes t @ [this]\<rparr>))"

definition clear :: "tree \<Rightarrow> tree" where
  "clear t = (let (r, t') = Node (t\<lparr>nodes := []\<rparr>) None in t'\<lparr>root_node := r\<rparr>)"

text \<open>\<open>new Tree()\<close>: no object exists yet, and the constructor calls \<open>clear\<close>.\<close>

definition Tree :: tree where
  "Tree = clear \<lparr>heap = [], nodes = [], root_node = 0\<rparr>"

definition addChild :: "tree \<Rightarrow> ref \<Rightarrow> ref \<times> tree" where
  "addChild t this =
     (let (child, t') = Node t (Some this)
      in (child, upd this (\<lambda>n. n\<lparr>children := children n @ [child]\<rparr>) t'))"

definition addEdge :: "tree \<Rightarrow> ref \<Rightarrow> ref \<Rightarrow> tree" where
  "addEdge t this n =
     upd this (\<lambda>m. m\<lparr>outgoing := outgoing m @ [n]\<rparr>)
       (upd n (\<lambda>m. m\<lparr>incoming := incoming m @ [this]\<rparr>) t)"

definition removeEdge :: "tree \<Rightarrow> ref \<Rightarrow> ref \<Rightarrow> bool \<times> tree" where
  "removeEdge t this n =
     (if remove_returns this (incoming (obj t n))
      then (True, upd this (\<lambda>m. m\<lparr>outgoing := remove1 n (outgoing m)\<rparr>)
                    (upd n (\<lambda>m. m\<lparr>incoming := remove1 this (incoming m)\<rparr>) t))
      else (False, t))"

text \<open>
  \<open>clearEdges\<close>: the first loop runs over \<open>this.incoming\<close>, which it never changes (it removes
  from \<open>outgoing\<close> arrays only); the second runs over \<open>this.outgoing\<close> as the first loop left it.
\<close>

definition clearEdges :: "tree \<Rightarrow> ref \<Rightarrow> tree" where
  "clearEdges t this =
     (let t1 = fold (\<lambda>m. upd m (\<lambda>n. n\<lparr>outgoing := remove1 this (outgoing n)\<rparr>))
                 (incoming (obj t this)) t;
          t2 = fold (\<lambda>m. upd m (\<lambda>n. n\<lparr>incoming := remove1 this (incoming n)\<rparr>))
                 (outgoing (obj t1 this)) t1
      in upd this (\<lambda>n. n\<lparr>incoming := [], outgoing := []\<rparr>) t2)"

text \<open>
  The last two statements of \<open>removeChild\<close>: splice the child out of the node table at the
  position its \<open>index\<close> field names, then renumber from there to the end of the table.
\<close>

definition renumber :: "nat \<Rightarrow> tree \<Rightarrow> tree" where
  "renumber i0 t =
     fold (\<lambda>i t'. upd (nodes t' ! i) (\<lambda>n. n\<lparr>index := i\<rparr>) t') [i0 ..< length (nodes t)] t"

definition unlink :: "ref \<Rightarrow> tree \<Rightarrow> tree" where
  "unlink child t =
     (let i = index (obj t child)
      in renumber i (t\<lparr>nodes := splice1 i (nodes t)\<rparr>))"

text \<open>
  \<open>removeChild\<close> and \<open>clearChildren\<close> call each other. \<open>RemoveChild this child\<close> is the call
  \<open>this.removeChild(child)\<close>; \<open>ClearChildren this i\<close> is the loop of \<open>this.clearChildren()\<close>
  standing at counter \<open>i\<close>: the loop reads \<open>this.children.length\<close> and \<open>this.children[i]\<close>
  afresh in every round, after the call before has changed the array.
\<close>

datatype call = RemoveChild ref ref | ClearChildren ref nat

partial_function (option) run :: "call \<Rightarrow> tree \<Rightarrow> tree option" where
  "run c t =
     (case c of
        RemoveChild this child \<Rightarrow>
          Option.bind
            (run (ClearChildren child 0)
               (clearEdges (upd this (\<lambda>n. n\<lparr>children := remove1 child (children n)\<rparr>) t) child))
            (\<lambda>t'. Some (unlink child t'))
      | ClearChildren this i \<Rightarrow>
          if i < length (children (obj t this))
          then Option.bind (run (RemoveChild this (children (obj t this) ! i)) t)
                 (\<lambda>t'. run (ClearChildren this (i + 1)) t')
          else Some t)"

definition removeChild :: "tree \<Rightarrow> ref \<Rightarrow> ref \<Rightarrow> tree option" where
  "removeChild t this child = run (RemoveChild this child) t"

definition clearChildren :: "tree \<Rightarrow> ref \<Rightarrow> tree option" where
  "clearChildren t this = run (ClearChildren this 0) t"

text \<open>
  \<open>ancestors\<close>: the loop climbs the \<open>parent\<close> links and may run forever on a store whose
  parent links form a cycle, so it is a partial function (\<open>None\<close>: no result).
\<close>

partial_function (option) ancestors_loop ::
    "tree \<Rightarrow> ref list \<Rightarrow> ref \<Rightarrow> ref option \<Rightarrow> ref list option" where
  "ancestors_loop t acc n par =
     (if par \<noteq> None
      then ancestors_loop t (acc @ [n]) (the par) (parent (obj t (the par)))
      else Some (acc @ [n]))"

definition ancestors :: "tree \<Rightarrow> ref \<Rightarrow> ref list option" where
  "ancestors t this = ancestors_loop t [] this (parent (obj t this))"

text \<open>
  \<open>leastCommonAncestor\<close>: \<open>aNode\<close> and \<open>bNode\<close> are \<open>undefined\<close> (\<open>None\<close>) once their array
  is empty; \<open>undefined == undefined\<close> holds, so the loop does not stop when both arrays run out
  together. The result is \<open>sharedNode\<close>, possibly \<open>null\<close> (\<open>None\<close>).
\<close>

partial_function (option) lca_loop ::
    "ref option \<Rightarrow> ref option \<Rightarrow> ref list \<Rightarrow> ref list \<Rightarrow> ref option \<Rightarrow> ref option option" where
  "lca_loop aNode bNode aNodes bNodes sharedNode =
     (if aNode = bNode
      then lca_loop (fst (pop aNodes)) (fst (pop bNodes)) (snd (pop aNodes)) (snd (pop bNodes))
             aNode
      else Some sharedNode)"

definition leastCommonAncestor :: "tree \<Rightarrow> ref \<Rightarrow> ref \<Rightarrow> ref option option" where
  "leastCommonAncestor t a b =
     (if a = b then Some (Some a)
      else Option.bind (ancestors t a) (\<lambda>aNodes.
           Option.bind (ancestors t b) (\<lambda>bNodes.
             lca_loop (fst (pop aNodes)) (fst (pop bNodes)) (snd (pop aNodes)) (snd (pop bNodes))
               None)))"

subsection \<open>Ancestry and well-formed trees\<close>

text \<open>\<open>is_ancestor t x y\<close>: \<open>x\<close> is \<open>y\<close> or is reached from \<open>y\<close> along \<open>parent\<close> links.\<close>

inductive is_ancestor :: "tree \<Rightarrow> ref \<Rightarrow> ref \<Rightarrow> bool" for t :: tree where
  self: "is_ancestor t x x"
| up: "parent (obj t y) = Some p \<Longrightarrow> is_ancestor t x p \<Longrightarrow> is_ancestor t x y"

code_pred is_ancestor .

text \<open>
  The objects of the present tree are those created since the last \<open>clear\<close>: the root and
  everything allocated after it. In a well-formed tree the root is the one such object without a
  parent, every other one has a parent that was created before it, and the node table holds
  objects of the tree only.
\<close>

definition live :: "tree \<Rightarrow> ref \<Rightarrow> bool" where
  "live t r = (root_node t \<le> r \<and> r < length (heap t))"

definition wf_tree :: "tree \<Rightarrow> bool" where
  "wf_tree t =
     (root_node t < length (heap t) \<and> parent (obj t (root_node t)) = None \<and>
      list_all (\<lambda>r. case parent (obj t r) of None \<Rightarrow> False
                    | Some p \<Rightarrow> root_node t \<le> p \<and> p < r)
        [Suc (root_node t) ..< length (heap t)] \<and>
      list_all (live t) (nodes t))"

section \<open>Numbers\<close>

text \<open>
  A JavaScript number is an IEEE 754 double: a finite value, an infinity, or \<open>NaN\<close>. The
  finite doubles are the real numbers that \<open>rnd\<close> leaves unchanged. The two zeros are one
  value here: they differ only as divisors, and the code modelled below divides by a zero only
  where it is the result of \<open>Math.sqrt\<close>, which is \<open>+0\<close>.
\<close>

datatype double = Finite (val: real) | PosInf | NegInf | NaN

text \<open>The nearest integer, the even one of the two when \<open>m\<close> is halfway between them.\<close>

definition round_even :: "real \<Rightarrow> int" where
  "round_even m =
     (let f = \<lfloor>m\<rfloor>
      in if m - of_int f < 1/2 then f
         else if 1/2 < m - of_int f then f + 1
         else if even f then f else f + 1)"

text \<open>
  Rounding to the nearest double, ties to even: a number with \<open>2^e \<le> |x| < 2^(e+1)\<close> is
  rounded to a multiple of \<open>2^(e-52)\<close>, a number below \<open>2^-1022\<close> to a multiple of
  \<open>2^-1074\<close>, and a result of magnitude \<open>2^1024\<close> or more is an infinity.
\<close>

definition rnd :: "real \<Rightarrow> double" where
  "rnd x =
     (if x = 0 then Finite 0
      else let e = max \<lfloor>log 2 \<bar>x\<bar>\<rfloor> (- 1022);
               u = 2 powr of_int (e - 52);
               r = of_int (round_even (x / u)) * u
           in if \<bar>r\<bar> < 2 ^ 1024 then Finite r else if 0 < x then PosInf else NegInf)"

fun dneg :: "double \<Rightarrow> double" where
  "dneg (Finite x) = Finite (- x)"
| "dneg PosInf = NegInf"
| "dneg NegInf = PosInf"
| "dneg NaN = NaN"

fun dadd :: "double \<Rightarrow> double \<Rightarrow> double" where
  "dadd (Finite x) (Finite y) = rnd (x + y)"
| "dadd NaN y = NaN"
| "dadd x NaN = NaN"
| "dadd PosInf NegInf = NaN"
| "dadd NegInf PosInf = NaN"
| "dadd PosInf y = PosInf"
| "dadd NegInf y = NegInf"
| "dadd x PosInf = PosInf"
| "dadd x NegInf = NegInf"

definition dsub :: "double \<Rightarrow> double \<Rightarrow> double" where
  "dsub x y = dadd x (dneg y)"

fun dmul :: "double \<Rightarrow> double \<Rightarrow> double" where
  "dmul (Finite x) (Finite y) = rnd (x * y)"
| "dmul NaN y = NaN"
| "dmul x NaN = NaN"
| "dmul (Finite x) PosInf = (if x = 0 then NaN else if 0 < x then PosInf else NegInf)"
| "dmul (Finite x) NegInf = (if x = 0 then NaN else if 0 < x then NegInf else PosInf)"
| "dmul PosInf (Finite y) = (if y = 0 then NaN else if 0 < y then PosInf else NegInf)"
| "dmul NegInf (Finite y) = (if y = 0 then NaN else if 0 < y then NegInf else PosInf)"
| "dmul PosInf PosInf = PosInf"
| "dmul PosInf NegInf = NegInf"
| "dmul NegInf PosInf = NegInf"
| "dmul NegInf NegInf = PosInf"

text \<open>Division; a zero divisor is \<open>+0\<close>.\<close>

fun ddiv :: "double \<Rightarrow> double \<Rightarrow> double" where
  "ddiv (Finite x) (Finite y) =
     (if y = 0 then (if x = 0 then NaN else if 0 < x then PosInf else NegInf)
      else rnd (x / y))"
| "ddiv NaN y = NaN"
| "ddiv x NaN = NaN"
| "ddiv (Finite x) PosInf = Finite 0"
| "ddiv (Finite x) NegInf = Finite 0"
| "ddiv PosInf (Finite y) = (if 0 \<le> y then PosInf else NegInf)"
| "ddiv NegInf (Finite y) = (if 0 \<le> y then NegInf else PosInf)"
| "ddiv PosInf y = NaN"
| "ddiv NegInf y = NaN"

text \<open>\<open>Math.sqrt\<close>, correctly rounded, and \<open>Math.abs\<close>.\<close>

fun dsqrt :: "double \<Rightarrow> double" where
  "dsqrt (Finite x) = (if x < 0 then NaN else rnd (sqrt x))"
| "dsqrt PosInf = PosInf"
| "dsqrt NegInf = NaN"
| "dsqrt NaN = NaN"

fun dabs :: "double \<Rightarrow> double" where
  "dabs (Finite x) = Finite \<bar>x\<bar>"
| "dabs PosInf = PosInf"
| "dabs NegInf = PosInf"
| "dabs NaN = NaN"

text \<open>The comparisons \<open><\<close>, \<open>>\<close>, \<open><=\<close> and \<open>==\<close>: each is false when an operand is \<open>NaN\<close>.\<close>

fun dlt :: "double \<Rightarrow> double \<Rightarrow> bool" where
  "dlt (Finite x) (Finite y) = (x < y)"
| "dlt NaN y = False"
| "dlt x NaN = False"
| "dlt PosInf y = False"
| "dlt x NegInf = False"
| "dlt NegInf y = True"
| "dlt x PosInf = True"

definition dgt :: "double \<Rightarrow> double \<Rightarrow> bool" where
  "dgt x y = dlt y x"

fun deq :: "double \<Rightarrow> double \<Rightarrow> bool" where
  "deq NaN y = False"
| "deq x NaN = False"
| "deq x y = (x = y)"

definition dle :: "double \<Rightarrow> double \<Rightarrow> bool" where
  "dle x y = (dlt x y \<or> deq x y)"

text \<open>The numbers that count as false: \<open>0\<close> and \<open>NaN\<close>.\<close>

definition falsy :: "double \<Rightarrow> bool" where
  "falsy x = (x = Finite 0 \<or> x = NaN)"

section \<open>Vectors (geom/Vector.js)\<close>

text \<open>
  The fields \<open>x\<close> and \<open>y\<close> of a \<open>Vector\<close> are the selectors \<open>vx\<close> and \<open>vy\<close>. The type of
  the coordinates is a parameter: the paths, lines and splines below compute with doubles
  (\<open>double vector\<close>); the circle layout, which computes with \<open>Math.PI\<close>, \<open>Math.cos\<close> and
  \<open>Math.sin\<close>, is modelled over the real numbers (\<open>real vector\<close>).
\<close>

datatype 'n vector = Vector (vx: 'n) (vy: 'n)

definition Vector_distance :: "double vector \<Rightarrow> double \<Rightarrow> double \<Rightarrow> double" where
  "Vector_distance this x y =
     (let dx = dsub (vx this) x; dy = dsub (vy this) y
      in dsqrt (dadd (dmul dx dx) (dmul dy dy)))"

definition perp :: "double vector \<Rightarrow> double vector" where
  "perp this = Vector (dneg (vy this)) (vx this)"

definition dot :: "double vector \<Rightarrow> double vector \<Rightarrow> double" where
  "dot this v = dadd (dmul (vx this) (vx v)) (dmul (vy this) (vy v))"

text \<open>
  Vector objects that are shared and changed in place (the control points of a spline, the
  positions of a layout) live in a store of their own: \<open>cells\<close> maps a reference to the present
  value of the object, \<open>fresh\<close> is the next unused reference.
\<close>

type_synonym vref = nat

record 'n vheap =
  cells :: "vref \<Rightarrow> 'n vector"
  fresh :: vref

definition new_Vector :: "'n \<Rightarrow> 'n \<Rightarrow> 'n vheap \<Rightarrow> vref \<times> 'n vheap" where
  "new_Vector x y h = (fresh h, h\<lparr>cells := (cells h)(fresh h := Vector x y), fresh := Suc (fresh h)\<rparr>)"

section \<open>Paths (geom/Path.js)\<close>

text \<open>
  A segment is its type and its points; a Bezier segment holds the destination first, then the
  two control points, as \<open>bezierCurveTo\<close> stores them. The points of a segment are created by
  the path and never shared, so they are values.
\<close>

datatype segment =
  SEG_MOVE "double vector" | SEG_LINE "double vector"
| SEG_BEZIER "double vector" "double vector" "double vector"

text \<open>\<open>segment.points[0]\<close>.\<close>

fun points0 :: "segment \<Rightarrow> double vector" where
  "points0 (SEG_MOVE p) = p"
| "points0 (SEG_LINE p) = p"
| "points0 (SEG_BEZIER p cp1 cp2) = p"

fun is_bezier :: "segment \<Rightarrow> bool" where
  "is_bezier (SEG_BEZIER p cp1 cp2) = True"
| "is_bezier s = False"

datatype error = TypeError | NotANumber

text \<open>The field \<open>_segments\<close> is \<open>segs\<close>; it is unset (\<open>None\<close>) until first used.\<close>

record path =
  segs :: "segment list option"

definition Path :: path where
  "Path = \<lparr>segs = None\<rparr>"

text \<open>
  \<open>Path.prototype.segments\<close> returns the array, after setting it to an empty one when it was
  unset: \<open>segments\<close> is the array returned and \<open>touch\<close> the object afterwards.
\<close>

definition segments :: "'a path_scheme \<Rightarrow> segment list" where
  "segments this = (case segs this of None \<Rightarrow> [] | Some ss \<Rightarrow> ss)"

definition touch :: "'a path_scheme \<Rightarrow> 'a path_scheme" where
  "touch this = this\<lparr>segs := Some (segments this)\<rparr>"

definition moveTo :: "double \<Rightarrow> double \<Rightarrow> 'a path_scheme \<Rightarrow> 'a path_scheme" where
  "moveTo x y this = this\<lparr>segs := Some (segments this @ [SEG_MOVE (Vector x y)])\<rparr>"

definition lineTo :: "double \<Rightarrow> double \<Rightarrow> 'a path_scheme \<Rightarrow> 'a path_scheme" where
  "lineTo x y this = this\<lparr>segs := Some (segments this @ [SEG_LINE (Vector x y)])\<rparr>"

definition bezierCurveTo ::
    "double \<Rightarrow> double \<Rightarrow> double \<Rightarrow> double \<Rightarrow> double \<Rightarrow> double
       \<Rightarrow> 'a path_scheme \<Rightarrow> 'a path_scheme" where
  "bezierCurveTo cp1x cp1y cp2x cp2y x y this =
     this\<lparr>segs := Some (segments this @
        [SEG_BEZIER (Vector x y) (Vector cp1x cp1y) (Vector cp2x cp2y)])\<rparr>"

definition flat :: "'a path_scheme \<Rightarrow> bool" where
  "flat this = list_all (\<lambda>s. \<not> is_bezier s) (segments this)"

text \<open>The sum \<open>w0 * a + w1 * b + w2 * c + w3 * d\<close>, added from the left.\<close>

definition weigh :: "double list \<Rightarrow> double \<Rightarrow> double \<Rightarrow> double \<Rightarrow> double \<Rightarrow> double" where
  "weigh w a b c d =
     dadd (dadd (dadd (dmul (w ! 0) a) (dmul (w ! 1) b)) (dmul (w ! 2) c)) (dmul (w ! 3) d)"

definition weightCurve ::
    "double list \<Rightarrow> double vector \<Rightarrow> double vector \<Rightarrow> double vector \<Rightarrow> double vector
       \<Rightarrow> double vector" where
  "weightCurve w p1 p2 p3 p4 =
     Vector (weigh w (vx p1) (vx p2) (vx p3) (vx p4))
            (weigh w (vy p1) (vy p2) (vy p3) (vy p4))"

text \<open>The quotient \<open>m.0/n.0\<close> of two literals.\<close>

definition quot :: "real \<Rightarrow> real \<Rightarrow> double" where
  "quot m n = ddiv (Finite m) (Finite n)"

definition bezierLeft :: "double list list" where
  "bezierLeft =
     [[quot 8 8, quot 0 8, quot 0 8, quot 0 8],
      [quot 4 8, quot 4 8, quot 0 8, quot 0 8],
      [quot 2 8, quot 4 8, quot 2 8, quot 0 8],
      [quot 1 8, quot 3 8, quot 3 8, quot 1 8]]"

definition bezierRight :: "double list list" where
  "bezierRight =
     [[quot 1 8, quot 3 8, quot 3 8, quot 1 8],
      [quot 0 8, quot 2 8, quot 4 8, quot 2 8],
      [quot 0 8, quot 0 8, quot 4 8, quot 4 8],
      [quot 0 8, quot 0 8, quot 0 8, quot 8 8]]"

subsection \<open>Lines (geom/Line.js)\<close>

definition Line :: "double \<Rightarrow> double \<Rightarrow> double \<Rightarrow> double \<Rightarrow> path" where
  "Line x1 y1 x2 y2 = \<lparr>segs = Some [SEG_MOVE (Vector x1 y1), SEG_LINE (Vector x2 y2)]\<rparr>"

definition Line_start :: "path \<Rightarrow> double vector" where
  "Line_start this = points0 (segments this ! 0)"

definition Line_end :: "path \<Rightarrow> double vector" where
  "Line_end this = points0 (segments this ! 1)"

definition Line_distance :: "path \<Rightarrow> double \<Rightarrow> double \<Rightarrow> double" where
  "Line_distance this x y =
     (let s = Line_start this; e = Line_end this;
          dx = dsub (vx e) (vx s); dy = dsub (vy e) (vy s)
      in if deq dx (Finite 0) \<and> deq dy (Finite 0) then Vector_distance s x y
         else ddiv (dabs (dsub (dmul dx (dsub (vy s) y)) (dmul dy (dsub (vx s) x))))
                (dsqrt (dadd (dmul dx dx) (dmul dy dy))))"

definition Line_intersect ::
    "double vector \<Rightarrow> double vector \<Rightarrow> double vector \<Rightarrow> double vector \<Rightarrow> bool" where
  "Line_intersect p1 p2 q1 q2 =
     (let a = Vector (dsub (vx q2) (vx q1)) (dsub (vy q2) (vy q1));
          b = Vector (dsub (vy p1) (vy p2)) (dsub (vx p2) (vx p1));
          c = Vector (dsub (vx p1) (vx q1)) (dsub (vy p1) (vy q1));
          d = dot c (perp a);
          f = dot a b
      in if (if dgt f (Finite 0) then dlt d (Finite 0) \<or> dgt d f
             else dgt d (Finite 0) \<or> dlt d f) then False
         else let e = dot c b
              in if (if dgt f (Finite 0) then dlt e (Finite 0) \<or> dgt e f
                     else dgt e (Finite 0) \<or> dlt e f) then False
                 else True)"

subsection \<open>Flattening\<close>

text \<open>
  \<open>addCurve\<close> is the local function of \<open>flatten\<close>; \<open>that\<close> is the path being rebuilt. The
  recursion need not end (a negative flatness, or one that is \<open>NaN\<close>, is never met, and a
  half of a curve may round to the curve itself), so it is a partial function: \<open>None\<close> stands
  for a call that does not return, which an engine ends by an exception of its own when the
  stack is full.
\<close>

partial_function (option) addCurve ::
    "double \<Rightarrow> double vector \<Rightarrow> double vector \<Rightarrow> double vector \<Rightarrow> double vector \<Rightarrow> path
       \<Rightarrow> path option" where
  "addCurve flatness a b c d that =
     (if dle (Line_distance (Line (vx a) (vy a) (vx d) (vy d)) (vx b) (vy b)) flatness
         \<and> dle (Line_distance (Line (vx a) (vy a) (vx d) (vy d)) (vx c) (vy c)) flatness
      then Some (lineTo (vx d) (vy d) that)
      else Option.bind
             (addCurve flatness a
                (weightCurve (bezierLeft ! 1) a b c d)
                (weightCurve (bezierLeft ! 2) a b c d)
                (weightCurve (bezierLeft ! 3) a b c d) that)
             (\<lambda>that'. addCurve flatness
                (weightCurve (bezierLeft ! 3) a b c d)
                (weightCurve (bezierRight ! 1) a b c d)
                (weightCurve (bezierRight ! 2) a b c d)
                d that'))"

text \<open>
  The loop of \<open>flatten\<close> over the old segment array, at counter \<open>i\<close>. A Bezier segment at
  position 0 has no segment before it: \<open>segments[-1]\<close> is \<open>undefined\<close> and reading its
  \<open>points\<close> throws.
\<close>

function flatten_loop ::
    "double \<Rightarrow> segment list \<Rightarrow> nat \<Rightarrow> path \<Rightarrow> (error + path) option" where
  "flatten_loop flatness ss i that =
     (if i < length ss then
        (case ss ! i of
           SEG_BEZIER p cp1 cp2 \<Rightarrow>
             if i = 0 then Some (Inl TypeError)
             else (case addCurve flatness (points0 (ss ! (i - 1))) cp1 cp2 p that of
                     None \<Rightarrow> None
                   | Some that' \<Rightarrow> flatten_loop flatness ss (i + 1) that')
         | s \<Rightarrow> flatten_loop flatness ss (i + 1) (that\<lparr>segs := Some (segments that @ [s])\<rparr>))
      else Some (Inr that))"
  by pat_completeness auto
termination
  by (relation "measure (\<lambda>(flatness, ss, i, that). length ss - i)") auto

text \<open>
  \<open>flatten(flatness)\<close>: the parameter is optional (\<open>None\<close> when left out), and a falsy one
  (\<open>undefined\<close>, \<open>0\<close>, \<open>NaN\<close>) is replaced by 1.
\<close>

definition flatten :: "double option \<Rightarrow> path \<Rightarrow> (error + path) option" where
  "flatten flatness this =
     (if flat this then Some (Inr (touch this))
      else flatten_loop
             (case flatness of None \<Rightarrow> Finite 1 | Some f \<Rightarrow> if falsy f then Finite 1 else f)
             (segments this) 0 (this\<lparr>segs := Some []\<rparr>))"

section \<open>Basis splines (geom/BasisSpline.js)\<close>

text \<open>
  The control points \<open>_points\<close> are references to Vector objects: \<open>addAll\<close> stores the
  caller's objects, and \<open>straighten\<close> changes them in place. \<open>_start\<close> and \<open>_end\<close> are the
  tags the edge router attaches.
\<close>

record spline = path +
  points :: "vref list"
  tag_start :: "nat option"
  tag_end :: "nat option"

definition BasisSpline :: spline where
  "BasisSpline = \<lparr>segs = None, points = [], tag_start = None, tag_end = None\<rparr>"

definition add ::
    "double \<Rightarrow> double \<Rightarrow> double vheap \<times> spline \<Rightarrow> double vheap \<times> spline" where
  "add x y hs =
     (let (p, h') = new_Vector x y (fst hs)
      in (h', (snd hs)\<lparr>points := points (snd hs) @ [p], segs := None\<rparr>))"

definition addAll :: "vref list \<Rightarrow> spline \<Rightarrow> spline" where
  "addAll pts this = this\<lparr>points := points this @ pts, segs := None\<rparr>"

definition spline_clear :: "spline \<Rightarrow> spline" where
  "spline_clear this = this\<lparr>points := [], segs := None\<rparr>"

text \<open>
  The right-hand side of the two assignments in the loop of \<open>straighten\<close>:
  \<open>beta * p + (1.0 - beta) * (z0 + i * d / e)\<close>. The counters \<open>i\<close> and \<open>e\<close> are array
  indices, which are doubles.
\<close>

definition towards :: "double \<Rightarrow> double \<Rightarrow> double \<Rightarrow> nat \<Rightarrow> double \<Rightarrow> nat \<Rightarrow> double" where
  "towards beta p z0 i d e =
     dadd (dmul beta p)
          (dmul (dsub (Finite 1) beta) (dadd z0 (ddiv (dmul (Finite (real i)) d) (Finite (real e)))))"

text \<open>
  One round of the loop of \<open>straighten\<close>: the two assignments to \<open>p.x\<close> and \<open>p.y\<close>, each
  reading \<open>z[0]\<close> from the store as it is at that moment.
\<close>

definition straighten_step ::
    "double \<Rightarrow> vref list \<Rightarrow> nat \<Rightarrow> double \<Rightarrow> double \<Rightarrow> nat \<Rightarrow> double vheap \<Rightarrow> double vheap" where
  "straighten_step beta z e dx dy i h =
     (let p = z ! i;
          h1 = h\<lparr>cells := (cells h)(p :=
                 Vector (towards beta (vx (cells h p)) (vx (cells h (z ! 0))) i dx e)
                        (vy (cells h p)))\<rparr>
      in h1\<lparr>cells := (cells h1)(p :=
                 Vector (vx (cells h1 p))
                        (towards beta (vy (cells h1 p)) (vy (cells h1 (z ! 0))) i dy e))\<rparr>)"

text \<open>
  With no control point, \<open>e\<close> is \<open>-1\<close>, \<open>z[e]\<close> is \<open>undefined\<close> and reading its \<open>x\<close> throws.
\<close>

definition straighten ::
    "double \<Rightarrow> double vheap \<times> spline \<Rightarrow> error + double vheap \<times> spline" where
  "straighten beta hs =
     (let h = fst hs; this = snd hs; z = points this
      in if z = [] then Inl TypeError
         else let e = length z - 1;
                  dx = dsub (vx (cells h (z ! e))) (vx (cells h (z ! 0)));
                  dy = dsub (vy (cells h (z ! e))) (vy (cells h (z ! 0)))
              in Inr (fold (straighten_step beta z e dx dy) [1 ..< e] h, this\<lparr>segs := None\<rparr>))"

definition basisToBezier :: "double list list" where
  "basisToBezier =
     [[quot 1 6, quot 4 6, quot 1 6, quot 0 6],
      [quot 0 6, quot 4 6, quot 2 6, quot 0 6],
      [quot 0 6, quot 2 6, quot 4 6, quot 0 6],
      [quot 0 6, quot 1 6, quot 4 6, quot 1 6]]"

definition basisCurveTo ::
    "double vector \<Rightarrow> double vector \<Rightarrow> double vector \<Rightarrow> double vector
       \<Rightarrow> 'a path_scheme \<Rightarrow> 'a path_scheme" where
  "basisCurveTo p0 p1 p2 p3 this =
     (let b1 = weightCurve (basisToBezier ! 1) p0 p1 p2 p3;
          b2 = weightCurve (basisToBezier ! 2) p0 p1 p2 p3;
          b3 = weightCurve (basisToBezier ! 3) p0 p1 p2 p3
      in bezierCurveTo (vx b1) (vy b1) (vx b2) (vy b2) (vx b3) (vy b3) this)"

text \<open>
  The sliding window of \<open>BasisSpline.prototype.segments\<close>: the state of the loops is the
  window \<open>(p0, p1, p2, p3)\<close> and the spline.
\<close>

definition window_step ::
    "double vector
       \<Rightarrow> (double vector \<times> double vector \<times> double vector \<times> double vector) \<times> spline
       \<Rightarrow> (double vector \<times> double vector \<times> double vector \<times> double vector) \<times> spline" where
  "window_step q st =
     (case st of ((p0, p1, p2, p3), this) \<Rightarrow>
        ((p1, p2, p3, q), basisCurveTo p1 p2 p3 q this))"

definition BasisSpline_segments :: "double vheap \<Rightarrow> spline \<Rightarrow> segment list \<times> spline" where
  "BasisSpline_segments h this =
     (case segs this of
        Some ss \<Rightarrow> (ss, this)
      | None \<Rightarrow>
         (let pts = map (cells h) (points this);
              this0 = this\<lparr>segs := Some []\<rparr>;
              this' =
                (if length pts = 0 then this0
                 else if length pts = 1 then moveTo (vx (pts ! 0)) (vy (pts ! 0)) this0
                 else if length pts = 2 then
                   lineTo (vx (pts ! 1)) (vy (pts ! 1))
                     (moveTo (vx (pts ! 0)) (vy (pts ! 0)) this0)
                 else
                   (let this1 = moveTo (vx (pts ! 0)) (vy (pts ! 0)) this0;
                        st1 = ((pts ! 0, pts ! 0, pts ! 0, pts ! 1),
                               basisCurveTo (pts ! 0) (pts ! 0) (pts ! 0) (pts ! 1) this1);
                        st2 = fold (\<lambda>i. window_step (pts ! i)) [2 ..< length pts] st1;
                        st3 = fold (\<lambda>j st. window_step (snd (snd (snd (fst st)))) st) [0 ..< 2] st2
                    in snd st3))
          in (segments this', this')))"

section \<open>Circle layout (vis/CircleLayout.js)\<close>

text \<open>
  \<open>_positions\<close> and \<open>_angles\<close> are arrays written at node indices: maps from index to entry,
  where reading a missing entry gives \<open>undefined\<close> (\<open>None\<close>). \<open>sort_fn\<close> is the optional
  \<open>sort\<close> comparator, taken as its effect on a copy of a children array.
\<close>

record layout =
  endAngle :: real
  startAngle :: real
  startRadius :: real
  sort_fn :: "(ref list \<Rightarrow> ref list) option"
  positions :: "nat \<rightharpoonup> vref"
  angles :: "nat \<rightharpoonup> real"

definition CircleLayout :: layout where
  "CircleLayout = \<lparr>endAngle = 2 * pi, startAngle = 0, startRadius = 0, sort_fn = None,
                    positions = Map.empty, angles = Map.empty\<rparr>"

definition position :: "layout \<Rightarrow> nat \<Rightarrow> vref option" where
  "position l i = positions l i"

definition angle :: "layout \<Rightarrow> nat \<Rightarrow> real option" where
  "angle l i = angles l i"

text \<open>The local variables of \<open>init\<close> that \<open>count\<close> writes.\<close>

record counts =
  maxDepth :: nat
  depthByNode :: "nat \<rightharpoonup> nat"
  countByNode :: "nat \<rightharpoonup> nat"

text \<open>
  \<open>Count node depth\<close> is the call \<open>count(node, depth)\<close>; \<open>CountLoop node depth i sm\<close> is its
  loop over \<open>node.children\<close> at counter \<open>i\<close>, with the raised \<open>depth\<close> and the running sum \<open>sm\<close>.
  Both return the sum and the updated variables.
\<close>

datatype count_call = Count ref nat | CountLoop ref nat nat nat

partial_function (option) count_run :: "tree \<Rightarrow> count_call \<Rightarrow> counts \<Rightarrow> (nat \<times> counts) option" where
  "count_run t c cs =
     (case c of
        Count n depth \<Rightarrow>
          Option.bind
            (count_run t
               (CountLoop n
                  (if depth > 0 \<or> length (children (obj t n)) > 1 then depth + 1 else depth)
                  0
                  (if length (children (obj t n)) = 0 then 1 else 0))
               (cs\<lparr>maxDepth := (if depth > maxDepth cs then depth else maxDepth cs),
                   depthByNode := (depthByNode cs)(index (obj t n) \<mapsto> depth)\<rparr>))
            (\<lambda>r. let sm = (if fst r = length (children (obj t n)) then fst r + 1 else fst r)
                 in Some (sm, (snd r)\<lparr>countByNode := (countByNode (snd r))(index (obj t n) \<mapsto> sm)\<rparr>))
      | CountLoop n depth i sm \<Rightarrow>
          if i < length (children (obj t n))
          then Option.bind (count_run t (Count (children (obj t n) ! i) depth) cs)
                 (\<lambda>r. count_run t (CountLoop n depth (i + 1) (sm + fst r)) (snd r))
          else Some (sm, cs))"

definition order :: "layout \<Rightarrow> ref list \<Rightarrow> ref list" where
  "order l chs = (case sort_fn l of None \<Rightarrow> chs | Some srt \<Rightarrow> srt chs)"

text \<open>
  The state of the placing phase: the Vector store, the layout, and \<open>spans\<close>, a history of the
  calls \<open>placeAll(node, start, end)\<close> made so far (auxiliary: the source keeps no such list).
\<close>

record placing =
  vectors :: "real vheap"
  lay :: layout
  spans :: "(ref \<times> real \<times> real) list"

text \<open>
  \<open>place(node, angle)\<close>. \<open>radiusScale\<close> is \<open>(1.0 - startRadius) / maxDepth\<close>, which is not a
  finite number when \<open>maxDepth\<close> is 0; an entry of \<open>depthByNode\<close> may be missing. Where the
  source would then compute with a value that is no real number, the model stops with
  \<open>NotANumber\<close>.
\<close>

definition place :: "tree \<Rightarrow> counts \<Rightarrow> ref \<Rightarrow> real \<Rightarrow> placing \<Rightarrow> error + placing" where
  "place t cs n a st =
     (let a' = a - pi / 2;
          l = lay st
      in case depthByNode cs (index (obj t n)) of
           None \<Rightarrow> Inl NotANumber
         | Some depth \<Rightarrow>
             if depth \<noteq> 0 \<and> maxDepth cs = 0 then Inl NotANumber
             else
               (let radius = (if depth = 0 then 0
                              else startRadius l
                                   + (1 - startRadius l) / real (maxDepth cs) * real depth);
                    (p, h') = new_Vector (cos a' * radius) (sin a' * radius) (vectors st)
                in Inr (st\<lparr>vectors := h',
                           lay := l\<lparr>positions := (positions l)(index (obj t n) \<mapsto> p),
                                     angles := (angles l)(index (obj t n) \<mapsto> a')\<rparr>\<rparr>)))"

text \<open>
  \<open>PlaceAll node start end\<close> is the call \<open>placeAll(node, start, end)\<close>;
  \<open>PlaceLoop children start step i k\<close> is its loop over the ordered children, at counters
  \<open>i\<close> and \<open>k\<close>. A missing or zero entry of \<open>countByNode\<close> again leaves the real numbers.
\<close>

datatype place_call = PlaceAll ref real real | PlaceLoop "ref list" real real nat nat

partial_function (option) place_run ::
    "tree \<Rightarrow> counts \<Rightarrow> place_call \<Rightarrow> placing \<Rightarrow> (error + placing) option" where
  "place_run t cs c st =
     (case c of
        PlaceAll n start end' \<Rightarrow>
          (case place t cs n ((start + end') / 2) (st\<lparr>spans := spans st @ [(n, start, end')]\<rparr>) of
             Inl e \<Rightarrow> Some (Inl e)
           | Inr st1 \<Rightarrow>
               (case countByNode cs (index (obj t n)) of
                  None \<Rightarrow> Some (Inl NotANumber)
                | Some cnt \<Rightarrow>
                    if cnt = 0 then Some (Inl NotANumber)
                    else place_run t cs
                           (PlaceLoop (order (lay st1) (children (obj t n))) start
                              ((end' - start) / real cnt) 0 0) st1))
      | PlaceLoop chs start step i k \<Rightarrow>
          if k < length chs then
            (case countByNode cs (index (obj t (chs ! k))) of
               None \<Rightarrow> Some (Inl NotANumber)
             | Some cnt \<Rightarrow>
                 Option.bind
                   (place_run t cs
                      (PlaceAll (chs ! k) (start + real i * step) (start + real (i + cnt) * step)) st)
                   (\<lambda>r. case r of
                          Inl e \<Rightarrow> Some (Inl e)
                        | Inr st' \<Rightarrow> place_run t cs (PlaceLoop chs start step (i + cnt) (k + 1)) st'))
          else Some (Inr st))"

definition count :: "tree \<Rightarrow> ref \<Rightarrow> nat \<Rightarrow> counts \<Rightarrow> (nat \<times> counts) option" where
  "count t n depth cs = count_run t (Count n depth) cs"

definition placeAll ::
    "tree \<Rightarrow> counts \<Rightarrow> ref \<Rightarrow> real \<Rightarrow> real \<Rightarrow> placing \<Rightarrow> (error + placing) option" where
  "placeAll t cs n start end' st = place_run t cs (PlaceAll n start end') st"

text \<open>
  \<open>init\<close>: clears both arrays, counts from the root, then places from the root. The result
  holds the counting variables as well, for the statements about them.
\<close>

definition init :: "tree \<Rightarrow> real vheap \<times> layout \<Rightarrow> (error + counts \<times> placing) option" where
  "init t hl =
     (let l = (snd hl)\<lparr>positions := Map.empty, angles := Map.empty\<rparr>
      in Option.bind
           (count t (root_node t) 0 \<lparr>maxDepth = 0, depthByNode = Map.empty, countByNode = Map.empty\<rparr>)
           (\<lambda>r. Option.bind
                  (placeAll t (snd r) (root_node t) (startAngle l) (endAngle l)
                     \<lparr>vectors = fst hl, lay = l, spans = []\<rparr>)
                  (\<lambda>res. Some (case res of Inl e \<Rightarrow> Inl e | Inr st \<Rightarrow> Inr (snd r, st)))))"

section \<open>Bundled edge router (vis/BundledEdgeRouter.js)\<close>

text \<open>\<open>transformPoint\<close>, in its default implementation.\<close>

definition transformPoint :: "vref option \<Rightarrow> vref option" where
  "transformPoint point = point"

text \<open>\<open>tree.nodes[i]\<close>: \<open>undefined\<close> (\<open>None\<close>) past the end of the table.\<close>

definition nodes_at :: "tree \<Rightarrow> nat \<Rightarrow> ref option" where
  "nodes_at t i = (if i < length (nodes t) then Some (nodes t ! i) else None)"

text \<open>
  The first loop of \<open>_spline\<close>. \<open>start\<close> and \<open>lca\<close> may be \<open>null\<close> or \<open>undefined\<close> (both
  \<open>None\<close>, which \<open>!=\<close> does not tell apart); reading \<open>parent\<close> or \<open>index\<close> of such a value
  throws. The points are what \<open>position\<close> returns, \<open>undefined\<close> included.
\<close>

partial_function (option) climb_start ::
    "tree \<Rightarrow> layout \<Rightarrow> ref option \<Rightarrow> ref option \<Rightarrow> vref option list
       \<Rightarrow> (error + vref option list) option" where
  "climb_start t l lca start pts =
     (if start \<noteq> lca then
        (if start = None then Some (Inl TypeError)
         else if parent (obj t (the start)) = None then Some (Inl TypeError)
         else climb_start t l lca (parent (obj t (the start)))
                (pts @ [transformPoint
                          (position l (index (obj t (the (parent (obj t (the start)))))))]))
      else Some (Inr pts))"

text \<open>The second loop: \<open>points.add(k, p)\<close> inserts \<open>p\<close> at position \<open>k\<close>.\<close>

partial_function (option) climb_end ::
    "tree \<Rightarrow> layout \<Rightarrow> ref option \<Rightarrow> nat \<Rightarrow> ref option \<Rightarrow> vref option list
       \<Rightarrow> (error + vref option list) option" where
  "climb_end t l lca k end' pts =
     (if end' \<noteq> lca then
        (if end' = None then Some (Inl TypeError)
         else climb_end t l lca k (parent (obj t (the end')))
                (take k pts @ [transformPoint (position l (index (obj t (the end'))))]
                   @ drop k pts))
      else Some (Inr pts))"

text \<open>
  The part of \<open>_spline(i, j)\<close> before the spline is built: the least common ancestor and the
  array \<open>points\<close>. \<open>leastCommonAncestor\<close> returns its first argument when both are equal,
  \<open>undefined\<close> included, and otherwise throws on an \<open>undefined\<close> argument.
\<close>

definition spline_points ::
    "tree \<Rightarrow> layout \<Rightarrow> nat \<Rightarrow> nat \<Rightarrow> (error + ref option \<times> vref option list) option" where
  "spline_points t l i j =
     (let start = nodes_at t i; end' = nodes_at t j
      in Option.bind
           (if start = end' then Some (Inr start)
            else if start = None \<or> end' = None then Some (Inl TypeError)
            else map_option Inr (leastCommonAncestor t (the start) (the end')))
           (\<lambda>r. case r of
                  Inl e \<Rightarrow> Some (Inl e)
                | Inr lca \<Rightarrow>
                    Option.bind (climb_start t l lca start [transformPoint (position l i)])
                      (\<lambda>r1. case r1 of
                              Inl e \<Rightarrow> Some (Inl e)
                            | Inr pts1 \<Rightarrow>
                                Option.bind (climb_end t l lca (length pts1) end' pts1)
                                  (\<lambda>r2. case r2 of
                                          Inl e \<Rightarrow> Some (Inl e)
                                        | Inr pts \<Rightarrow> Some (Inr (lca, pts))))))"

text \<open>
  \<open>_spline(i, j)\<close>. \<open>straighten\<close> reads \<open>x\<close> of the first, the last and every inner control
  point, so it throws when any point of the array is \<open>undefined\<close>. The store \<open>h\<close> holds the
  Vector objects of the positions, with the doubles that are their coordinates.
\<close>

definition spline_of ::
    "tree \<Rightarrow> layout \<Rightarrow> double \<Rightarrow> double vheap \<Rightarrow> nat \<Rightarrow> nat
       \<Rightarrow> (error + double vheap \<times> spline) option" where
  "spline_of t l beta h i j =
     Option.bind (spline_points t l i j)
       (\<lambda>r. Some (case r of
                    Inl e \<Rightarrow> Inl e
                  | Inr (lca, pts) \<Rightarrow>
                      if list_all (\<lambda>p. p \<noteq> None) pts then
                        (case straighten beta (h, addAll (map the pts) BasisSpline) of
                           Inl e \<Rightarrow> Inl e
                         | Inr (h', s) \<Rightarrow> Inr (h', s\<lparr>tag_start := Some i, tag_end := Some j\<rparr>))
                      else Inl TypeError))"

section \<open>Properties of trees\<close>

text \<open>
  \<open>chain t r xs\<close>: \<open>xs\<close> is \<open>r\<close>, its parent, its grandparent and so on up to an object
  without a parent.
\<close>

inductive chain :: "tree \<Rightarrow> ref \<Rightarrow> ref list \<Rightarrow> bool" for t :: tree where
  top: "parent (obj t r) = None \<Longrightarrow> chain t r [r]"
| step: "parent (obj t r) = Some p \<Longrightarrow> chain t p xs \<Longrightarrow> chain t r (r # xs)"

code_pred chain .

text \<open>
  The three parts of the heap-order invariant, over the node table: a node with a parent has
  a larger index than its parent; its parent is in the table; the indices of the table are
  \<open>0, 1, \<dots>, n - 1\<close> in table order.
\<close>

definition heap_ordered :: "tree \<Rightarrow> bool" where
  "heap_ordered t =
     list_all (\<lambda>c. case parent (obj t c) of None \<Rightarrow> True
                   | Some p \<Rightarrow> index (obj t p) < index (obj t c)) (nodes t)"

definition parents_in_table :: "tree \<Rightarrow> bool" where
  "parents_in_table t =
     list_all (\<lambda>c. case parent (obj t c) of None \<Rightarrow> True
                   | Some p \<Rightarrow> p \<in> set (nodes t)) (nodes t)"

definition contiguous :: "tree \<Rightarrow> bool" where
  "contiguous t = (map (\<lambda>r. index (obj t r)) (nodes t) = [0 ..< length (nodes t)])"

subsection \<open>Two trees\<close>

text \<open>A root with one child that has two children of its own.\<close>

definition family :: tree where
  "family =
     (let (c, t1) = addChild Tree 0;
          (g1, t2) = addChild t1 c;
          (g2, t3) = addChild t2 c
      in t3)"

text \<open>
  The tree \<open>{root, A = child(root), B = child(root), leaf1 = child(A), leaf2 = child(A),
  leaf3 = child(B)}\<close>, built in this order: the references are root 0, A 1, B 2, leaf1 3,
  leaf2 4 and leaf3 5.
\<close>

definition scenario :: tree where
  "scenario =
     (let (a, t1) = addChild Tree 0;
          (b, t2) = addChild t1 0;
          (l1, t3) = addChild t2 a;
          (l2, t4) = addChild t3 a;
          (l3, t5) = addChild t4 b
      in t5)"

text \<open>
  The first tree after \<open>g2.addEdge(g2)\<close> on its second grandchild (reference 3): the tree on
  which \<open>root.removeChild(c)\<close> is then called.
\<close>

definition looped :: tree where
  "looped = addEdge family 3 3"

section \<open>Doubles and real numbers\<close>

text \<open>
  \<open>exact x\<close>: the real number \<open>x\<close> is a double, so that an operation with the result \<open>x\<close>
  does not round. \<open>doubles p\<close> is the Vector object whose coordinates are the real numbers
  of \<open>p\<close>, and \<open>reals p\<close> the point whose coordinates are the finite doubles of \<open>p\<close>.
\<close>

definition exact :: "real \<Rightarrow> bool" where
  "exact x = (rnd x = Finite x)"

definition doubles :: "real vector \<Rightarrow> double vector" where
  "doubles p = Vector (Finite (vx p)) (Finite (vy p))"

definition reals :: "double vector \<Rightarrow> real vector" where
  "reals p = Vector (val (vx p)) (val (vy p))"

text \<open>The double \<open>Math.SQRT2\<close>, which is larger than the square root of 2.\<close>

definition root2 :: real where
  "root2 = 6369051672525773 / 2 ^ 52"

section \<open>Collinear points\<close>

text \<open>Four points are collinear when one line \<open>a x + b y = c\<close> passes through all of them.\<close>

definition collinear4 :: "real vector \<Rightarrow> real vector \<Rightarrow> real vector \<Rightarrow> real vector \<Rightarrow> bool" where
  "collinear4 p1 p2 q1 q2 =
     (\<exists>a b c. (a \<noteq> 0 \<or> b \<noteq> 0) \<and>
        a * vx p1 + b * vy p1 = c \<and> a * vx p2 + b * vy p2 = c \<and>
        a * vx q1 + b * vy q1 = c \<and> a * vx q2 + b * vy q2 = c)"

text \<open>
  \<open>unrounded p1 p2 q1 q2\<close>: the six differences of coordinates and the six products that
  \<open>Line.intersect(p1, p2, q1, q2)\<close> forms are doubles, so that it computes them without
  rounding.
\<close>

definition unrounded :: "real vector \<Rightarrow> real vector \<Rightarrow> real vector \<Rightarrow> real vector \<Rightarrow> bool" where
  "unrounded p1 p2 q1 q2 =
     (let ax = vx q2 - vx q1; ay = vy q2 - vy q1;
          bx = vy p1 - vy p2; by = vx p2 - vx p1;
          cx = vx p1 - vx q1; cy = vy p1 - vy q1
      in exact ax \<and> exact ay \<and> exact bx \<and> exact by \<and> exact cx \<and> exact cy \<and>
         exact (cx * (- ay)) \<and> exact (cy * ax) \<and> exact (ax * bx) \<and> exact (ay * by) \<and>
         exact (cx * bx) \<and> exact (cy * by))"

section \<open>Subdivision of a cubic, as the specification words it\<close>

text \<open>
  \<open>on_line a d u\<close> is the point at parameter \<open>u\<close> of the line through \<open>a\<close> and \<open>d\<close>; the
  chord from \<open>a\<close> to \<open>d\<close> is its part for \<open>0 \<le> u \<le> 1\<close>. A point is within \<open>fl\<close> of the
  chord when some point of the chord is at distance at most \<open>fl\<close>; \<open>chord_test\<close> is this
  test on the exact values of Vector objects with finite coordinates.
\<close>

definition on_line :: "real vector \<Rightarrow> real vector \<Rightarrow> real \<Rightarrow> real vector" where
  "on_line a d u = Vector (vx a + u * (vx d - vx a)) (vy a + u * (vy d - vy a))"

definition near_chord :: "real \<Rightarrow> real vector \<Rightarrow> real vector \<Rightarrow> real vector \<Rightarrow> bool" where
  "near_chord fl a d p =
     (\<exists>u. 0 \<le> u \<and> u \<le> 1 \<and>
          sqrt ((vx p - vx (on_line a d u)) * (vx p - vx (on_line a d u))
                + (vy p - vy (on_line a d u)) * (vy p - vy (on_line a d u))) \<le> fl)"

definition chord_test :: "real \<Rightarrow> double vector \<Rightarrow> double vector \<Rightarrow> double vector \<Rightarrow> bool" where
  "chord_test fl a d p = near_chord fl (reals a) (reals d) (reals p)"

text \<open>
  A point is within \<open>fl\<close> of the infinite line through \<open>a\<close> and \<open>d\<close> when some point of the
  line is at distance at most \<open>fl\<close>. \<open>exact_gap a d p\<close> is the formula
  \<open>|dx (a.y - p.y) - dy (a.x - p.x)| / sqrt (dx dx + dy dy)\<close> in exact arithmetic, where
  \<open>(dx, dy)\<close> is \<open>d - a\<close>, and the distance from \<open>a\<close> when \<open>dx\<close> and \<open>dy\<close> are both zero.
\<close>

definition near_line :: "real \<Rightarrow> real vector \<Rightarrow> real vector \<Rightarrow> real vector \<Rightarrow> bool" where
  "near_line fl a d p =
     (\<exists>u. sqrt ((vx p - vx (on_line a d u)) * (vx p - vx (on_line a d u))
                + (vy p - vy (on_line a d u)) * (vy p - vy (on_line a d u))) \<le> fl)"

definition exact_gap :: "real vector \<Rightarrow> real vector \<Rightarrow> real vector \<Rightarrow> real" where
  "exact_gap a d p =
     (let dx = vx d - vx a; dy = vy d - vy a;
          ex = vx a - vx p; ey = vy a - vy p
      in if dx = 0 \<and> dy = 0 then sqrt (ex * ex + ey * ey)
         else \<bar>dx * ey - dy * ex\<bar> / sqrt (dx * dx + dy * dy))"

text \<open>
  \<open>line_gap a d p\<close> is the same formula in double arithmetic, every operation rounded:
  the distance of the point \<open>p\<close> from the infinite line through \<open>a\<close> and \<open>d\<close> as it is
  computed. \<open>within_line fl a d p\<close>: this distance is at most \<open>fl\<close>.
\<close>

definition line_gap :: "double vector \<Rightarrow> double vector \<Rightarrow> double vector \<Rightarrow> double" where
  "line_gap a d p =
     (let dx = dsub (vx d) (vx a); dy = dsub (vy d) (vy a);
          ex = dsub (vx a) (vx p); ey = dsub (vy a) (vy p)
      in if deq dx (Finite 0) \<and> deq dy (Finite 0)
         then dsqrt (dadd (dmul ex ex) (dmul ey ey))
         else ddiv (dabs (dsub (dmul dx ey) (dmul dy ex)))
                (dsqrt (dadd (dmul dx dx) (dmul dy dy))))"

definition within_line :: "double \<Rightarrow> double vector \<Rightarrow> double vector \<Rightarrow> double vector \<Rightarrow> bool" where
  "within_line fl a d p = dle (line_gap a d p) fl"

text \<open>
  The point \<open>w0 a + w1 b + w2 c + w3 d\<close>, in double arithmetic and added from the left, for
  weights that are doubles.
\<close>

definition blend ::
    "real \<Rightarrow> real \<Rightarrow> real \<Rightarrow> real \<Rightarrow> double vector \<Rightarrow> double vector \<Rightarrow> double vector \<Rightarrow> double vector
       \<Rightarrow> double vector" where
  "blend w0 w1 w2 w3 a b c d =
     Vector
       (dadd (dadd (dadd (dmul (Finite w0) (vx a)) (dmul (Finite w1) (vx b)))
          (dmul (Finite w2) (vx c))) (dmul (Finite w3) (vx d)))
       (dadd (dadd (dadd (dmul (Finite w0) (vy a)) (dmul (Finite w1) (vy b)))
          (dmul (Finite w2) (vy c))) (dmul (Finite w3) (vy d)))"

text \<open>
  \<open>subdivides near a b c d ps\<close>: the recursion on the cubic with control points \<open>a b c d\<close>
  ends and emits lines to the points \<open>ps\<close>, in this order. \<open>near a d p\<close> is the test that
  the inner control point \<open>p\<close> is close enough to the line or chord from \<open>a\<close> to \<open>d\<close>.
  The split is de Casteljau's at the midpoint: the left half has the control points \<open>a\<close>,
  \<open>(a + b) / 2\<close>, \<open>(a + 2 b + c) / 4\<close> and \<open>(a + 3 b + 3 c + d) / 8\<close>, the right half
  \<open>(a + 3 b + 3 c + d) / 8\<close>, \<open>(b + 2 c + d) / 4\<close>, \<open>(c + d) / 2\<close> and \<open>d\<close>, each a weighted
  sum of all four points.
\<close>

inductive subdivides ::
    "(double vector \<Rightarrow> double vector \<Rightarrow> double vector \<Rightarrow> bool)
       \<Rightarrow> double vector \<Rightarrow> double vector \<Rightarrow> double vector \<Rightarrow> double vector
       \<Rightarrow> double vector list \<Rightarrow> bool"
    for near :: "double vector \<Rightarrow> double vector \<Rightarrow> double vector \<Rightarrow> bool" where
  emit: "near a d b \<Longrightarrow> near a d c \<Longrightarrow> subdivides near a b c d [d]"
| split:
    "\<not> (near a d b \<and> near a d c) \<Longrightarrow>
     subdivides near a (blend (1/2) (1/2) 0 0 a b c d) (blend (1/4) (1/2) (1/4) 0 a b c d)
       (blend (1/8) (3/8) (3/8) (1/8) a b c d) ls \<Longrightarrow>
     subdivides near (blend (1/8) (3/8) (3/8) (1/8) a b c d) (blend 0 (1/4) (1/2) (1/4) a b c d)
       (blend 0 0 (1/2) (1/2) a b c d) d rs \<Longrightarrow>
     subdivides near a b c d (ls @ rs)"

text \<open>
  \<open>flattened near prev ss out\<close>: the segments \<open>ss\<close>, which follow the segment \<open>prev\<close> (if
  any), flatten to \<open>out\<close>: moves and lines are kept, and a Bezier segment is replaced by the
  lines of the recursion on the cubic that starts where the segment before it ends.
\<close>

inductive flattened ::
    "(double vector \<Rightarrow> double vector \<Rightarrow> double vector \<Rightarrow> bool) \<Rightarrow> segment option \<Rightarrow> segment list
       \<Rightarrow> segment list \<Rightarrow> bool"
    for near :: "double vector \<Rightarrow> double vector \<Rightarrow> double vector \<Rightarrow> bool" where
  stop: "flattened near prev [] []"
| keep: "\<not> is_bezier s \<Longrightarrow> flattened near (Some s) ss out \<Longrightarrow>
         flattened near prev (s # ss) (s # out)"
| curve: "subdivides near (points0 s0) cp1 cp2 p ps \<Longrightarrow>
          flattened near (Some (SEG_BEZIER p cp1 cp2)) ss out \<Longrightarrow>
          flattened near (Some s0) (SEG_BEZIER p cp1 cp2 # ss) (map SEG_LINE ps @ out)"

text \<open>The flatness \<open>flatten\<close> works with: 1 when the argument is left out, 0 or \<open>NaN\<close>.\<close>

definition flatness_used :: "double option \<Rightarrow> double" where
  "flatness_used flatness =
     (case flatness of None \<Rightarrow> Finite 1 | Some f \<Rightarrow> if f = Finite 0 \<or> f = NaN then Finite 1 else f)"

text \<open>Paths that are a move followed by one Bezier segment.\<close>

definition arch :: path where
  "arch = \<lparr>segs = Some [SEG_MOVE (doubles (Vector 0 0)),
                          SEG_BEZIER (doubles (Vector 2 0)) (doubles (Vector 0 2))
                            (doubles (Vector 2 (- 2)))]\<rparr>"

definition low_arch :: path where
  "low_arch = \<lparr>segs = Some [SEG_MOVE (doubles (Vector 0 0)),
                              SEG_BEZIER (doubles (Vector 1 0)) (doubles (Vector (1/4) (1/2)))
                                (doubles (Vector (3/4) (1/2)))]\<rparr>"

definition overshoot :: path where
  "overshoot = \<lparr>segs = Some [SEG_MOVE (doubles (Vector 0 0)),
                               SEG_BEZIER (doubles (Vector 1 0)) (doubles (Vector 100 0))
                                 (doubles (Vector (- 100) 0))]\<rparr>"

text \<open>
  The path \<open>new Path().moveTo(0, 0).bezierCurveTo(0, Math.SQRT2, 0, 0, 1, 1)\<close>: the first
  inner control point is at the distance \<open>Math.SQRT2 / sqrt 2\<close>, which is more than 1, from
  the line through \<open>(0, 0)\<close> and \<open>(1, 1)\<close>.
\<close>

definition tilted :: path where
  "tilted = \<lparr>segs = Some [SEG_MOVE (doubles (Vector 0 0)),
                            SEG_BEZIER (doubles (Vector 1 1)) (doubles (Vector 0 root2))
                              (doubles (Vector 0 0))]\<rparr>"

text \<open>
  The path \<open>new Path().moveTo(0, y).bezierCurveTo(0, y, 0, y + 2, 0, y)\<close> with
  \<open>y = 2^53 + 2\<close>: at this magnitude the doubles are the even integers.
\<close>

definition stuck :: path where
  "stuck = \<lparr>segs = Some [SEG_MOVE (doubles (Vector 0 9007199254740994)),
                           SEG_BEZIER (doubles (Vector 0 9007199254740994))
                             (doubles (Vector 0 9007199254740994))
                             (doubles (Vector 0 9007199254740996))]\<rparr>"

section \<open>Splines over shared Vector objects\<close>

text \<open>
  A store with two Vector objects, \<open>(0, 0)\<close> at reference 0 and \<open>(2, 0)\<close> at reference 1, and
  two splines over it: one whose three control points are the first object twice and then the
  second, as after \<open>addAll([v, v, w])\<close>, and one with three objects of its own.
\<close>

definition two_vectors :: "double vheap" where
  "two_vectors =
     \<lparr>cells = (\<lambda>r. if r = 1 then doubles (Vector 2 0) else doubles (Vector 0 0)), fresh = 2\<rparr>"

definition aliased_spline :: spline where
  "aliased_spline = addAll [0, 0, 1] BasisSpline"

definition three_vectors :: "double vheap" where
  "three_vectors =
     \<lparr>cells = (\<lambda>r. if r = 1 then doubles (Vector 1 4) else if r = 2 then doubles (Vector 4 0)
                    else doubles (Vector 0 0)),
      fresh = 3\<rparr>"

definition bent_spline :: spline where
  "bent_spline = addAll [0, 1, 2] BasisSpline"

text \<open>
  A layout of the tree \<open>scenario\<close> whose position for index \<open>i\<close> is the Vector object
  \<open>i\<close> of the store \<open>six_positions\<close>: leaf1 at \<open>(0, 0)\<close>, A at \<open>(0, 4)\<close>, the root at
  \<open>(4, 4)\<close>, B at \<open>(8, 4)\<close> and leaf3 at \<open>(8, 0)\<close>.
\<close>

definition placed :: layout where
  "placed = CircleLayout\<lparr>positions := [0 \<mapsto> 0, 1 \<mapsto> 1, 2 \<mapsto> 2, 3 \<mapsto> 3, 4 \<mapsto> 4, 5 \<mapsto> 5]\<rparr>"

definition six_positions :: "double vheap" where
  "six_positions =
     \<lparr>cells = (\<lambda>r. doubles (if r = 0 then Vector 4 4 else if r = 1 then Vector 0 4
                              else if r = 2 then Vector 8 4 else if r = 3 then Vector 0 0
                              else if r = 4 then Vector 2 8 else Vector 8 0)),
      fresh = 6\<rparr>"

section \<open>Trees built through the interface\<close>

text \<open>
  \<open>built t\<close>: the tree \<open>t\<close> results from \<open>new Tree()\<close> by calls of \<open>clear\<close>, of \<open>addChild\<close> on
  objects of the tree, of \<open>addEdge\<close>, and of \<open>removeChild\<close> (whenever that call returns).
\<close>

inductive built :: "tree \<Rightarrow> bool" where
  new: "built Tree"
| cleared: "built t \<Longrightarrow> built (clear t)"
| child: "built t \<Longrightarrow> live t this \<Longrightarrow> built (snd (addChild t this))"
| edge: "built t \<Longrightarrow> built (addEdge t this n)"
| removed: "built t \<Longrightarrow> removeChild t this c = Some t' \<Longrightarrow> built t'"

text \<open>
  \<open>same_links t t'\<close>: from \<open>t\<close> to \<open>t'\<close> no object was created, no parent link and not the
  root changed, and no object entered the node table.
\<close>

definition same_links :: "tree \<Rightarrow> tree \<Rightarrow> bool" where
  "same_links t t' =
     (map parent (heap t') = map parent (heap t) \<and> root_node t' = root_node t \<and>
      set (nodes t') \<subseteq> set (nodes t))"

section \<open>Rounding\<close>

lemma round_even_int: "round_even (of_int z) = z"
  by (simp add: round_even_def)

lemma round_even_neg: "round_even (- m) = - round_even m"
proof (cases "m = of_int \<lfloor>m\<rfloor>")
  case True
  then obtain z :: int where "m = of_int z" by metis
  then have "- m = of_int (- z)" by simp
  then show ?thesis unfolding \<open>m = of_int z\<close> by (simp only: round_even_int)
next
  case False
  define f where "f = \<lfloor>m\<rfloor>"
  have lo: "of_int f < m" using False f_def by (metis of_int_floor_le order_less_le)
  have hi: "m < of_int f + 1" unfolding f_def by linarith
  have fl: "\<lfloor>- m\<rfloor> = - f - 1" using lo hi by (simp add: floor_unique)
  show ?thesis
    unfolding round_even_def Let_def fl f_def [symmetric]
    using lo hi by (auto simp: algebra_simps)
qed

lemma rnd_neg: "rnd (- x) = dneg (rnd x)"
  by (simp add: rnd_def Let_def round_even_neg minus_divide_left [symmetric] del: minus_divide_left)

lemma rnd_binade:
  assumes "2 powr of_int e \<le> \<bar>x\<bar>" "\<bar>x\<bar> < 2 powr of_int (e + 1)" "- 1022 \<le> e"
  shows "rnd x =
     (let u = 2 powr of_int (e - 52);
          r = of_int (round_even (x / u)) * u
      in if \<bar>r\<bar> < 2 ^ 1024 then Finite r else if 0 < x then PosInf else NegInf)"
proof -
  have pos: "0 < \<bar>x\<bar>" using assms(1) by (smt (verit) powr_gt_zero)
  then have nz: "x \<noteq> 0" by simp
  have "\<lfloor>log 2 \<bar>x\<bar>\<rfloor> = e"
    using assms(1,2) pos by (subst floor_log_eq_powr_iff) simp_all
  then show ?thesis using nz assms(3) by (simp add: rnd_def Let_def max_def)
qed



lemma rnd_high:
  assumes "2 ^ (52 + k) \<le> \<bar>x\<bar>" "\<bar>x\<bar> < 2 ^ (53 + k)"
  shows "rnd x =
     (let r = of_int (round_even (x / 2 ^ k)) * 2 ^ k
      in if \<bar>r\<bar> < 2 ^ 1024 then Finite r else if 0 < x then PosInf else NegInf)"
proof -
  have p: "(2::real) powr real_of_int (int n) = 2 ^ n" for n
    using powr_realpow [of 2 n] by simp
  have a: "2 powr real_of_int (int (52 + k)) \<le> \<bar>x\<bar>" unfolding p by (rule assms(1))
  have e: "int (52 + k) + 1 = int (53 + k)" by simp
  have b: "\<bar>x\<bar> < 2 powr real_of_int (int (52 + k) + 1)" unfolding e p by (rule assms(2))
  have e2: "int (52 + k) - 52 = int k" by simp
  have "- 1022 \<le> int (52 + k)" by simp
  note R = rnd_binade [OF a b this, unfolded e2 p Let_def]
  show ?thesis unfolding Let_def by (rule R)
qed

lemma rnd_exact:
  assumes x: "x = of_int m / 2 ^ k" and m: "\<bar>m\<bar> \<le> 2 ^ 53" and k: "k \<le> 1074"
  shows "rnd x = Finite x"
proof (cases "m = 0")
  case True
  then show ?thesis using x by (simp add: rnd_def)
next
  case False
  then have nz: "x \<noteq> 0" using x by simp
  define e where "e = \<lfloor>log 2 \<bar>x\<bar>\<rfloor>"
  define E where "E = max e (- 1022)"
  define u where "u = (2::real) powr of_int (E - 52)"
  have upos: "0 < u" by (simp add: u_def)
  have "inverse u = 2 powr (- real_of_int (E - 52))" unfolding u_def by (rule powr_minus [symmetric])
  then have iu: "inverse u = 2 powr (52 - real_of_int E)" by simp
  have lo: "2 powr of_int e \<le> \<bar>x\<bar>"
    using floor_log_eq_powr_iff [of "\<bar>x\<bar>" 2 e] nz by (simp add: e_def)
  have xk: "x = of_int m * 2 powr (- real k)"
    by (simp add: x powr_minus powr_realpow divide_inverse)
  have "real_of_int \<bar>m\<bar> \<le> 2 ^ 53" using m by (metis of_int_le_iff of_int_numeral of_int_power)
  have p53: "(2::real) powr 53 = 2 ^ 53" using powr_realpow [of 2 53] by simp
  then have am: "\<bar>real_of_int m\<bar> \<le> 2 powr 53" using \<open>real_of_int \<bar>m\<bar> \<le> 2 ^ 53\<close> by simp
  have "\<bar>x\<bar> = \<bar>real_of_int m\<bar> * 2 powr (- real k)" by (simp add: xk abs_mult)
  also have "\<dots> \<le> 2 powr 53 * 2 powr (- real k)" using am by (simp add: mult_right_mono)
  also have "\<dots> = 2 powr (53 + - real k)" by (rule powr_add [symmetric])
  also have "53 + - real k = 53 - real k" by simp
  finally have ub: "\<bar>x\<bar> \<le> 2 powr (53 - real k)" .
  from lo ub have "2 powr real_of_int e \<le> (2::real) powr (53 - real k)" by linarith
  then have e53: "e \<le> 53 - int k" by simp
  have "\<exists>z::int. x / u = of_int z"
  proof (cases "E \<le> 52 - int k")
    case True
    define n where "n = nat (52 - int k - E)"
    have n: "int n = 52 - int k - E" using True by (simp add: n_def)
    have "x / u = of_int m * (2 powr (- real k) * 2 powr (52 - real_of_int E))"
      by (simp add: xk iu divide_inverse)
    also have "2 powr (- real k) * 2 powr (52 - real_of_int E) = (2::real) powr (- real k + (52 - real_of_int E))"
      by (rule powr_add [symmetric])
    also have "- real k + (52 - real_of_int E) = real n" using n by simp
    also have "(2::real) powr real n = 2 ^ n" by (rule powr_realpow) simp
    finally have "x / u = of_int (m * 2 ^ n)" by simp
    then show ?thesis by blast
  next
    case False
    have "- 1022 \<le> 52 - int k" using k by simp
    with False have eE: "E = e" by (simp add: E_def max_def split: if_splits)
    with False e53 have e: "e = 53 - int k" by simp
    have "real_of_int e = 53 - real k" unfolding e by simp
    with lo ub have ax: "\<bar>x\<bar> = 2 powr (53 - real k)" by simp
    have "\<bar>x / u\<bar> = \<bar>x\<bar> * inverse u"
      using upos by (simp add: divide_inverse abs_mult)
    also have "\<dots> = 2 powr (53 - real k) * 2 powr (52 - real_of_int E)"
      unfolding ax iu ..
    also have "\<dots> = 2 powr ((53 - real k) + (52 - real_of_int E))" by (rule powr_add [symmetric])
    also have "(53 - real k) + (52 - real_of_int E) = real 52" unfolding eE e by simp
    also have "(2::real) powr real 52 = 2 ^ 52" by (rule powr_realpow) simp
    finally have "\<bar>x / u\<bar> = 2 ^ 52" .
    then have "x / u = of_int (2 ^ 52) \<or> x / u = of_int (- (2 ^ 52))" by (auto simp: abs_if split: if_splits)
    then show ?thesis by blast
  qed
  then obtain z :: int where z: "x / u = of_int z" by blast
  then have r: "of_int (round_even (x / u)) * u = x" using upos by (simp add: round_even_int field_simps)
  have "\<bar>x\<bar> \<le> 2 powr 53" using ub
    by (smt (verit) of_nat_0_le_iff powr_mono)
  also have "\<dots> = 2 ^ 53" by (rule p53)
  also have "\<dots> < (2::real) ^ 1024" by simp
  finally have small: "\<bar>x\<bar> < 2 ^ 1024" .
  show ?thesis
    using nz small unfolding rnd_def Let_def e_def [symmetric] E_def [symmetric] u_def [symmetric] r
    by simp
qed


lemma exact_int: "\<bar>m\<bar> \<le> 2 ^ 53 \<Longrightarrow> exact (of_int m)"
  unfolding exact_def by (rule rnd_exact [where m = m and k = 0]) simp_all

lemma rnd_0: "rnd 0 = Finite 0"
  by (simp add: rnd_def)

lemma rnd_1: "rnd 1 = Finite 1"
  using exact_int [of 1] by (simp add: exact_def)

lemma rnd_numeral: "numeral w \<le> (2::int) ^ 53 \<Longrightarrow> rnd (numeral w) = Finite (numeral w)"
  using exact_int [of "numeral w"] by (simp add: exact_def)

lemma rnd_half: "rnd (1/2) = Finite (1/2)"
  by (rule rnd_exact [where m = 1 and k = 1]) simp_all

lemma rnd_quarter: "rnd (1/4) = Finite (1/4)"
  by (rule rnd_exact [where m = 1 and k = 2]) simp_all

lemma rnd_eighth: "rnd (1/8) = Finite (1/8)"
  by (rule rnd_exact [where m = 1 and k = 3]) simp_all

lemma rnd_halves: "numeral w \<le> (2::int) ^ 53 \<Longrightarrow> rnd (numeral w / 2) = Finite (numeral w / 2)"
  by (rule rnd_exact [where m = "numeral w" and k = 1]) simp_all

lemma rnd_quarters: "numeral w \<le> (2::int) ^ 53 \<Longrightarrow> rnd (numeral w / 4) = Finite (numeral w / 4)"
  by (rule rnd_exact [where m = "numeral w" and k = 2]) simp_all

lemma rnd_eighths: "numeral w \<le> (2::int) ^ 53 \<Longrightarrow> rnd (numeral w / 8) = Finite (numeral w / 8)"
  by (rule rnd_exact [where m = "numeral w" and k = 3]) simp_all

lemmas rnd_small = rnd_0 rnd_1 rnd_numeral rnd_half rnd_quarter rnd_eighth rnd_halves rnd_quarters
  rnd_eighths rnd_neg


lemma round_even_near:
  assumes "\<bar>m - of_int z\<bar> < 1/2"
  shows "round_even m = z"
proof (cases "of_int z \<le> m")
  case True
  with assms have "\<lfloor>m\<rfloor> = z" by (intro floor_unique) (simp_all add: abs_if split: if_splits)
  with assms True show ?thesis by (simp add: round_even_def Let_def abs_if split: if_splits)
next
  case False
  with assms have "\<lfloor>m\<rfloor> = z - 1" by (intro floor_unique) (simp_all add: abs_if split: if_splits)
  with assms False show ?thesis by (simp add: round_even_def Let_def abs_if split: if_splits)
qed

lemma rnd_low:
  assumes "2 ^ 52 \<le> \<bar>x\<bar> * 2 ^ k" "\<bar>x\<bar> * 2 ^ k < 2 ^ 53" "k \<le> 1074"
  shows "rnd x =
     (let r = of_int (round_even (x * 2 ^ k)) / 2 ^ k
      in if \<bar>r\<bar> < 2 ^ 1024 then Finite r else if 0 < x then PosInf else NegInf)"
proof -
  have p: "(2::real) powr real n = 2 ^ n" for n by (rule powr_realpow) simp
  have q: "(2::real) powr (real m - real n) = 2 ^ m / 2 ^ n" for m n
    unfolding powr_diff p ..
  have e1: "real_of_int (52 - int k) = real 52 - real k" by simp
  have e2: "real_of_int (52 - int k + 1) = real 53 - real k" by simp
  have e3: "real_of_int (52 - int k - 52) = real 0 - real k" by simp
  have pos: "(0::real) < 2 ^ k" by simp
  have a: "2 powr real_of_int (52 - int k) \<le> \<bar>x\<bar>"
    unfolding e1 q using assms(1) pos by (simp add: field_simps del: of_nat_numeral)
  have b: "\<bar>x\<bar> < 2 powr real_of_int (52 - int k + 1)"
    unfolding e2 q using assms(2) pos by (simp add: field_simps del: of_nat_numeral)
  have c: "- 1022 \<le> 52 - int k" using assms(3) by simp
  have d: "x / (2 ^ 0 / 2 ^ k) = x * 2 ^ k" by simp
  have m: "y * (2 ^ 0 / 2 ^ k) = y / (2::real) ^ k" for y by simp
  note R = rnd_binade [OF a b c, unfolded e3 q Let_def d m]
  show ?thesis unfolding Let_def by (rule R)
qed

lemma rnd_sqrt2: "rnd (sqrt 2) = Finite root2"
proof -
  have one: "1 \<le> sqrt 2" by simp
  have two: "sqrt 2 < (2::real)" by (rule real_less_lsqrt) simp_all
  have "sqrt (2 * (2 ^ 52)\<^sup>2) = sqrt 2 * sqrt ((2 ^ 52)\<^sup>2)" by (rule real_sqrt_mult)
  also have "sqrt ((2 ^ 52)\<^sup>2) = (2::real) ^ 52" by (subst real_sqrt_abs) simp
  also have "(2::real) * (2 ^ 52)\<^sup>2 = 2 * 2 ^ 104" by simp
  finally have s: "sqrt 2 * 2 ^ 52 = sqrt (2 * 2 ^ 104)" by simp
  have a: "(6369051672525773 - 1/2 :: real) < sqrt (2 * 2 ^ 104)"
    by (rule real_less_rsqrt) (simp add: power2_eq_square)
  have b: "sqrt (2 * 2 ^ 104) < (6369051672525773 + 1/2 :: real)"
    by (rule real_less_lsqrt) (simp_all add: power2_eq_square)
  have "\<bar>sqrt (2 * 2 ^ 104) - of_int 6369051672525773\<bar> < 1/2"
    using a b by (simp add: abs_if)
  then have r: "round_even (sqrt 2 * 2 ^ 52) = 6369051672525773"
    unfolding s by (rule round_even_near)
  have "rnd (sqrt 2) =
     (let r = of_int (round_even (sqrt 2 * 2 ^ 52)) / 2 ^ 52
      in if \<bar>r\<bar> < 2 ^ 1024 then Finite r else if 0 < sqrt 2 then PosInf else NegInf)"
    using one two by (intro rnd_low) simp_all
  then show ?thesis unfolding r Let_def root2_def by simp
qed

lemma root2_exact: "rnd root2 = Finite root2"
  unfolding root2_def by (rule rnd_exact [where m = 6369051672525773 and k = 52]) simp_all

lemma root2_pos: "0 < root2"
  by (simp add: root2_def)

text \<open>Between \<open>2^53\<close> and \<open>2^54\<close> the doubles are the even integers, and then the multiples of 4.\<close>

lemma rnd_big:
  "rnd 9007199254740996 = Finite 9007199254740996"
  "rnd 9007199254740995 = Finite 9007199254740996"
  "rnd 27021597764222988 = Finite 27021597764222988"
  "rnd 27021597764222985 = Finite 27021597764222984"
  "rnd 27021597764222984 = Finite 27021597764222984"
proof -
  show "rnd 9007199254740996 = Finite 9007199254740996"
    by (subst rnd_high [where k = 1]) (simp_all add: round_even_def)
  show "rnd 9007199254740995 = Finite 9007199254740996"
    by (subst rnd_high [where k = 1]) (simp_all add: round_even_def)
  show "rnd 27021597764222988 = Finite 27021597764222988"
    by (subst rnd_high [where k = 2]) (simp_all add: round_even_def)
  show "rnd 27021597764222985 = Finite 27021597764222984"
    by (subst rnd_high [where k = 2]) (simp_all add: round_even_def)
  show "rnd 27021597764222984 = Finite 27021597764222984"
    by (subst rnd_high [where k = 2]) (simp_all add: round_even_def)
qed

lemma dsub_exact: "exact (x - y) \<Longrightarrow> dsub (Finite x) (Finite y) = Finite (x - y)"
  by (simp add: dsub_def exact_def)

lemma dmul_exact: "exact (x * y) \<Longrightarrow> dmul (Finite x) (Finite y) = Finite (x * y)"
  by (simp add: exact_def)

lemma exact_small:
  "exact 0" "exact 1" "numeral w \<le> (2::int) ^ 53 \<Longrightarrow> exact (numeral w)"
  "exact x \<Longrightarrow> exact (- x)"
  by (simp_all add: exact_def rnd_small)


section \<open>Removing a child\<close>

lemma family_eq:
  "family =
     \<lparr>heap = [\<lparr>outgoing = [], incoming = [], children = [1], index = 0, parent = None\<rparr>,
              \<lparr>outgoing = [], incoming = [], children = [2, 3], index = 1, parent = Some 0\<rparr>,
              \<lparr>outgoing = [], incoming = [], children = [], index = 2, parent = Some 1\<rparr>,
              \<lparr>outgoing = [], incoming = [], children = [], index = 3, parent = Some 1\<rparr>],
      nodes = [0, 1, 2, 3], root_node = 0\<rparr>"
  by (simp add: family_def Tree_def clear_def Node_def addChild_def upd_def Let_def)

lemma removeChild_family:
  "removeChild family 0 1 =
     Some \<lparr>heap = [\<lparr>outgoing = [], incoming = [], children = [], index = 0, parent = None\<rparr>,
                   \<lparr>outgoing = [], incoming = [], children = [3], index = 1, parent = Some 0\<rparr>,
                   \<lparr>outgoing = [], incoming = [], children = [], index = 2, parent = Some 1\<rparr>,
                   \<lparr>outgoing = [], incoming = [], children = [], index = 1, parent = Some 1\<rparr>],
           nodes = [0, 3], root_node = 0\<rparr>"
  unfolding family_eq removeChild_def
  by (simp add: run.simps clearEdges_def unlink_def renumber_def upd_def obj_def splice1_def
        Let_def)

text \<open>
  C1. In the tree \<open>family\<close>, \<open>root.removeChild(child)\<close> returns, and the node table then
  still holds the second grandchild (object 3), whose parent is the removed child (object 1):
  the loop of \<open>clearChildren\<close> steps its counter over an array that each round shortens, and
  so skips every second child. The removed child and the first grandchild are gone from the
  table.
\<close>

theorem removeChild_keeps_second_grandchild:
  "\<exists>t'. removeChild family 0 1 = Some t' \<and>
        1 \<in> set (children (obj family 0)) \<and>
        is_ancestor family 1 3 \<and> (3::ref) \<noteq> 1 \<and>
        3 \<in> set (nodes t') \<and> 1 \<notin> set (nodes t') \<and> 2 \<notin> set (nodes t')"
proof -
  have "is_ancestor family 1 3"
    by (rule is_ancestor.up [where p = 1]) (simp_all add: family_eq obj_def is_ancestor.self)
  moreover have "1 \<in> set (children (obj family 0))"
    by (simp add: family_eq obj_def)
  ultimately show ?thesis
    unfolding removeChild_family by simp
qed

text \<open>
  C2. After \<open>addChild\<close> three times and one \<open>removeChild\<close> of an actual child, from a fresh
  tree, the node table holds a node (object 3) whose parent is not in the table and whose
  index equals its parent's index field: heap ordering and parent membership both fail. The
  indices of the table are still \<open>0, \<dots>, n - 1\<close>.
\<close>

theorem removeChild_breaks_heap_order:
  "\<exists>t'. removeChild family 0 1 = Some t' \<and>
        \<not> heap_ordered t' \<and> \<not> parents_in_table t' \<and> contiguous t'"
  unfolding removeChild_family
  by (simp add: heap_ordered_def parents_in_table_def contiguous_def obj_def)

section \<open>Well-formed trees\<close>

text \<open>
  Every tree built through the interface is well-formed: no operation changes a parent link,
  and \<open>addChild\<close> links the new object to an older one.
\<close>

lemma same_links_refl: "same_links t t"
  by (simp add: same_links_def)

lemma same_links_trans: "same_links t t' \<Longrightarrow> same_links t' t'' \<Longrightarrow> same_links t t''"
  by (auto simp: same_links_def)

lemma same_links_upd:
  "(\<And>n. parent (f n) = parent n) \<Longrightarrow> same_links t (upd r f t)"
proof -
  assume f: "\<And>n. parent (f n) = parent n"
  have "map parent ((heap t)[r := f (heap t ! r)]) = (map parent (heap t))[r := parent (heap t ! r)]"
    by (simp add: map_update f)
  also have "\<dots> = map parent ((heap t)[r := heap t ! r])"
    by (simp only: map_update)
  also have "\<dots> = map parent (heap t)"
    by (simp only: list_update_id)
  finally show ?thesis by (simp add: same_links_def upd_def)
qed

lemma same_links_fold:
  "(\<And>x s. same_links s (g x s)) \<Longrightarrow> same_links t (fold g xs t)"
proof (induction xs arbitrary: t)
  case Nil
  show ?case by (simp add: same_links_refl)
next
  case (Cons x xs)
  from same_links_trans [OF Cons.prems [of t x] Cons.IH [OF Cons.prems]]
  show ?case by simp
qed

lemma same_links_clearEdges: "same_links t (clearEdges t this)"
proof -
  let ?out = "\<lambda>m. upd m (\<lambda>n. n\<lparr>outgoing := remove1 this (outgoing n)\<rparr>)"
  let ?inc = "\<lambda>m. upd m (\<lambda>n. n\<lparr>incoming := remove1 this (incoming n)\<rparr>)"
  let ?t1 = "fold ?out (incoming (obj t this)) t"
  let ?t2 = "fold ?inc (outgoing (obj ?t1 this)) ?t1"
  have 1: "same_links t ?t1"
    by (rule same_links_fold, rule same_links_upd) simp
  have 2: "same_links ?t1 ?t2"
    by (rule same_links_fold, rule same_links_upd) simp
  have 3: "same_links ?t2 (upd this (\<lambda>n. n\<lparr>incoming := [], outgoing := []\<rparr>) ?t2)"
    by (rule same_links_upd) simp
  from same_links_trans [OF same_links_trans [OF 1 2] 3] show ?thesis
    by (simp add: clearEdges_def Let_def)
qed

lemma same_links_unlink: "same_links t (unlink c t)"
proof -
  have 1: "same_links t (t\<lparr>nodes := splice1 i (nodes t)\<rparr>)" for i
    by (auto simp: same_links_def splice1_def dest: in_set_takeD in_set_dropD)
  have 2: "same_links s (renumber i s)" for s i
    unfolding renumber_def by (rule same_links_fold, rule same_links_upd) simp
  from same_links_trans [OF 1 2] show ?thesis
    by (simp add: unlink_def Let_def)
qed

lemma same_links_run:
  assumes "run c t = Some t'"
  shows "same_links t t'"
proof (rule run.raw_induct [where P = "\<lambda>c t t'. same_links t t'", OF _ assms], goal_cases)
  case (1 f c t t')
  note IH = 1(1) and body = 1(2)
  show ?case
  proof (cases c)
    case (RemoveChild this child)
    with body obtain t1 where
      t1: "f (ClearChildren child 0)
             (clearEdges (upd this (\<lambda>n. n\<lparr>children := remove1 child (children n)\<rparr>) t) child)
           = Some t1" and t': "t' = unlink child t1"
      by (auto split: bind_splits)
    have "same_links t (upd this (\<lambda>n. n\<lparr>children := remove1 child (children n)\<rparr>) t)"
      by (rule same_links_upd) simp
    from same_links_trans [OF this same_links_clearEdges]
    have "same_links t
            (clearEdges (upd this (\<lambda>n. n\<lparr>children := remove1 child (children n)\<rparr>) t) child)" .
    from same_links_trans [OF this IH [OF t1]] have "same_links t t1" .
    from same_links_trans [OF this same_links_unlink [of t1 child]] t'
    show ?thesis by simp
  next
    case (ClearChildren this i)
    show ?thesis
    proof (cases "i < length (children (obj t this))")
      case True
      with body ClearChildren obtain t1 where
        "f (RemoveChild this (children (obj t this) ! i)) t = Some t1"
        "f (ClearChildren this (i + 1)) t1 = Some t'"
        by (auto split: bind_splits)
      then show ?thesis by (rule same_links_trans [OF IH IH])
    next
      case False
      with body ClearChildren show ?thesis by (simp add: same_links_refl)
    qed
  qed
qed

lemma wf_tree_same_links:
  assumes "same_links t t'" "wf_tree t"
  shows "wf_tree t'"
proof -
  from assms(1) have m: "map parent (heap t') = map parent (heap t)"
    and r: "root_node t' = root_node t" and n: "set (nodes t') \<subseteq> set (nodes t)"
    by (simp_all add: same_links_def)
  from m have len: "length (heap t') = length (heap t)" by (metis length_map)
  have par: "parent (obj t' x) = parent (obj t x)" if "x < length (heap t)" for x
    using that m len by (metis nth_map obj_def)
  from assms(2) n show ?thesis
    unfolding wf_tree_def list_all_iff live_def r len
    by (auto simp: par)
qed

lemma wf_tree_clear: "wf_tree (clear t)"
  by (simp add: wf_tree_def clear_def Node_def Let_def obj_def live_def)

lemma wf_tree_addChild:
  assumes "wf_tree t" "live t this"
  shows "wf_tree (snd (addChild t this))"
proof -
  let ?n = "\<lparr>outgoing = [], incoming = [], children = [],
             index = length (nodes t), parent = Some this\<rparr>"
  let ?t1 = "t\<lparr>heap := heap t @ [?n], nodes := nodes t @ [length (heap t)]\<rparr>"
  have a: "snd (addChild t this) = upd this (\<lambda>n. n\<lparr>children := children n @ [length (heap t)]\<rparr>) ?t1"
    by (simp add: addChild_def Node_def Let_def)
  have "wf_tree ?t1"
    using assms unfolding wf_tree_def list_all_iff live_def
    by (auto simp: obj_def nth_append less_Suc_eq split: option.splits)
  moreover have "same_links ?t1 (upd this (\<lambda>n. n\<lparr>children := children n @ [length (heap t)]\<rparr>) ?t1)"
    by (rule same_links_upd) simp
  ultimately show ?thesis unfolding a by (rule wf_tree_same_links [rotated])
qed

lemma wf_tree_addEdge:
  assumes "wf_tree t"
  shows "wf_tree (addEdge t this n)"
proof -
  have 1: "same_links t (upd n (\<lambda>m. m\<lparr>incoming := incoming m @ [this]\<rparr>) t)"
    by (rule same_links_upd) simp
  have 2: "same_links (upd n (\<lambda>m. m\<lparr>incoming := incoming m @ [this]\<rparr>) t) (addEdge t this n)"
    unfolding addEdge_def by (rule same_links_upd) simp
  from wf_tree_same_links [OF same_links_trans [OF 1 2] assms] show ?thesis .
qed

lemma built_wf_tree: "built t \<Longrightarrow> wf_tree t"
proof (induction rule: built.induct)
  case new
  show ?case by (simp add: Tree_def wf_tree_clear)
next
  case (removed t this c t')
  from same_links_run [OF removed.hyps(2) [unfolded removeChild_def]] removed.IH
  show ?case by (rule wf_tree_same_links)
next
  case (cleared t)
  show ?case by (rule wf_tree_clear)
next
  case (child t this)
  then show ?case by (simp only: wf_tree_addChild)
next
  case (edge t this n)
  then show ?case by (simp only: wf_tree_addEdge)
qed

section \<open>Least common ancestor\<close>

lemma chain_ancestors_loop:
  "chain t r xs \<Longrightarrow> ancestors_loop t acc r (parent (obj t r)) = Some (acc @ xs)"
proof (induction arbitrary: acc rule: chain.induct)
  case (top r)
  then show ?case by (simp add: ancestors_loop.simps)
next
  case (step r p xs)
  from step.IH [of "acc @ [r]"] step.hyps(1) show ?case
    by (subst ancestors_loop.simps) simp
qed

lemma chain_ancestors: "chain t r xs \<Longrightarrow> ancestors t r = Some xs"
  using chain_ancestors_loop [of t r xs "[]"] by (simp add: ancestors_def)

lemma chain_hd: "chain t r xs \<Longrightarrow> xs \<noteq> [] \<and> hd xs = r"
  by (induction rule: chain.induct) auto

lemma chain_det: "chain t r xs \<Longrightarrow> chain t r ys \<Longrightarrow> xs = ys"
proof (induction arbitrary: ys rule: chain.induct)
  case (top r)
  from top.prems top.hyps show ?case by (cases rule: chain.cases) auto
next
  case (step r p xs)
  from step.prems step.hyps(1) step.IH show ?case by (cases rule: chain.cases) auto
qed

lemma chain_set_ancestor: "chain t r xs \<Longrightarrow> x \<in> set xs \<Longrightarrow> is_ancestor t x r"
  by (induction rule: chain.induct) (auto intro: is_ancestor.intros)

lemma ancestor_in_chain: "is_ancestor t x r \<Longrightarrow> chain t r xs \<Longrightarrow> x \<in> set xs"
proof (induction arbitrary: xs rule: is_ancestor.induct)
  case (self x)
  then show ?case using chain_hd [of t x xs] by (cases xs) auto
next
  case (up y p x)
  from up.prems up.hyps(1) up.IH show ?case by (cases rule: chain.cases) auto
qed

lemma chain_suffix: "chain t r xs \<Longrightarrow> y \<in> set xs \<Longrightarrow> \<exists>ys. chain t y ys \<and> suffix ys xs"
proof (induction rule: chain.induct)
  case (top r)
  then show ?case by (auto intro: chain.top)
next
  case (step r p xs)
  show ?case
  proof (cases "y = r")
    case True
    then show ?thesis using chain.step [OF step.hyps(1,2)] by auto
  next
    case False
    with step.prems have "y \<in> set xs" by simp
    from step.IH [OF this] show ?thesis by (auto simp: suffix_Cons)
  qed
qed

lemma wf_parent:
  assumes "wf_tree t" "live t r" "r \<noteq> root_node t"
  shows "\<exists>p. parent (obj t r) = Some p \<and> live t p \<and> p < r"
proof -
  from assms have "r \<in> set [Suc (root_node t) ..< length (heap t)]"
    by (auto simp: live_def)
  with assms(1) have "case parent (obj t r) of None \<Rightarrow> False | Some p \<Rightarrow> root_node t \<le> p \<and> p < r"
    unfolding wf_tree_def list_all_iff by blast
  with assms(2) show ?thesis by (auto simp: live_def split: option.splits)
qed

lemma wf_chain_exists:
  assumes "wf_tree t"
  shows "live t r \<Longrightarrow> \<exists>xs. chain t r xs"
proof (induction r rule: less_induct)
  case (less r)
  show ?case
  proof (cases "r = root_node t")
    case True
    with assms have "parent (obj t r) = None" by (simp add: wf_tree_def)
    then show ?thesis by (auto intro: chain.top)
  next
    case False
    from wf_parent [OF assms less.prems False] obtain p where
      p: "parent (obj t r) = Some p" "live t p" "p < r" by blast
    from less.IH [OF p(3) p(2)] obtain xs where "chain t p xs" by blast
    with p(1) show ?thesis by (auto intro: chain.step)
  qed
qed

lemma wf_chain_props:
  assumes "wf_tree t"
  shows "chain t r xs \<Longrightarrow> live t r \<Longrightarrow> last xs = root_node t \<and> sorted_wrt (>) xs \<and> (\<forall>x\<in>set xs. x \<le> r \<and> live t x)"
proof (induction rule: chain.induct)
  case (top r)
  have "r = root_node t"
  proof (rule ccontr)
    assume "r \<noteq> root_node t"
    from wf_parent [OF assms top.prems this] top.hyps show False by auto
  qed
  with top.prems show ?case by simp
next
  case (step r p xs)
  have "r \<noteq> root_node t" using step.hyps(1) assms by (auto simp: wf_tree_def)
  from wf_parent [OF assms step.prems this] step.hyps(1)
  have p: "live t p" "p < r" by auto
  from step.IH [OF p(1)] p(2) step.prems chain_hd [OF step.hyps(2)]
  show ?case by (cases xs) (auto simp: less_imp_le)
qed

lemma pop_rev_Nil: "pop (rev []) = (None, [])"
  by (simp add: pop_def)

lemma pop_rev_Cons: "pop (rev (x # xs)) = (Some x, rev xs)"
  by (simp add: pop_def)

lemma lca_loop_lcp:
  "xs \<noteq> ys \<Longrightarrow>
   lca_loop (fst (pop (rev xs))) (fst (pop (rev ys))) (snd (pop (rev xs))) (snd (pop (rev ys))) sh
     = Some (if longest_common_prefix xs ys = [] then sh
             else Some (last (longest_common_prefix xs ys)))"
proof (induction xs arbitrary: ys sh)
  case Nil
  then obtain y ys' where "ys = y # ys'" by (cases ys) auto
  then show ?case
    by (subst lca_loop.simps) (simp add: pop_rev_Nil pop_rev_Cons del: rev.simps)
next
  case (Cons x xs)
  show ?case
  proof (cases ys)
    case Nil
    then show ?thesis
      by (subst lca_loop.simps) (simp add: pop_rev_Nil pop_rev_Cons del: rev.simps)
  next
    case (Cons y ys')
    show ?thesis
    proof (cases "x = y")
      case False
      with Cons show ?thesis
        by (subst lca_loop.simps) (simp add: pop_rev_Nil pop_rev_Cons del: rev.simps)
    next
      case True
      with Cons Cons.prems have ne: "xs \<noteq> ys'" by simp
      from Cons.IH [OF ne, of "Some x"] True Cons show ?thesis
        by (subst lca_loop.simps) (simp add: pop_rev_Nil pop_rev_Cons del: rev.simps)
    qed
  qed
qed


lemma sorted_wrt_gt_distinct: "sorted_wrt (>) xs \<Longrightarrow> distinct (xs :: nat list)"
  by (induction xs) auto

lemma longest_common_prefix_same: "longest_common_prefix xs xs = xs"
  by (induction xs) auto

lemma last_rev_hd: "xs \<noteq> [] \<Longrightarrow> last (rev xs) = hd xs"
  by (simp add: last_rev)

text \<open>
  C3. In a well-formed tree (as every tree built through the interface is), for all objects
  \<open>a\<close> and \<open>b\<close> of the tree,
  \<open>leastCommonAncestor(a, b)\<close> returns a node that is an ancestor of both (a node counts as
  its own ancestor), no proper descendant of which is an ancestor of both; for \<open>a = b\<close> it
  returns \<open>a\<close>.
\<close>

theorem lca_correct:
  assumes wf: "wf_tree t" and la: "live t a" and lb: "live t b"
  shows "\<exists>r. leastCommonAncestor t a b = Some (Some r) \<and>
             is_ancestor t r a \<and> is_ancestor t r b \<and>
             (\<forall>d. is_ancestor t r d \<and> d \<noteq> r \<longrightarrow> \<not> (is_ancestor t d a \<and> is_ancestor t d b)) \<and>
             (a = b \<longrightarrow> r = a)"
proof -
  from wf_chain_exists [OF wf la] obtain A where A: "chain t a A" by blast
  from wf_chain_exists [OF wf lb] obtain B where B: "chain t b B" by blast
  note pA = wf_chain_props [OF wf A la] and pB = wf_chain_props [OF wf B lb]
  have dA: "distinct A" using pA by (simp add: sorted_wrt_gt_distinct)
  define L where "L = longest_common_prefix (rev A) (rev B)"
  have neA: "A \<noteq> []" and neB: "B \<noteq> []" and hdA: "hd A = a" and hdB: "hd B = b"
    using chain_hd [OF A] chain_hd [OF B] by auto
  have L1: "prefix L (rev A)" and L2: "prefix L (rev B)"
    unfolding L_def by (rule longest_common_prefix_prefix1, rule longest_common_prefix_prefix2)
  have "hd (rev A) = hd (rev B)" using pA pB neA neB by (simp add: hd_rev)
  then have Lne: "L \<noteq> []"
    unfolding L_def using neA neB by (cases "rev A"; cases "rev B") auto
  define r where "r = last L"
  have rL: "r \<in> set L" using Lne by (simp add: r_def)
  have rA: "r \<in> set A" using rL set_mono_prefix [OF L1] by auto
  have rB: "r \<in> set B" using rL set_mono_prefix [OF L2] by auto
  have anc_a: "is_ancestor t r a" by (rule chain_set_ancestor [OF A rA])
  have anc_b: "is_ancestor t r b" by (rule chain_set_ancestor [OF B rB])
  have minimal: "\<not> (is_ancestor t d a \<and> is_ancestor t d b)" if rd: "is_ancestor t r d" and ne: "d \<noteq> r" for d
  proof
    assume "is_ancestor t d a \<and> is_ancestor t d b"
    then have dA': "d \<in> set A" and dB': "d \<in> set B"
      using ancestor_in_chain A B by auto
    from chain_suffix [OF A dA'] obtain D where D: "chain t d D" "suffix D A" by blast
    from chain_suffix [OF B dB'] obtain D' where D': "chain t d D'" "suffix D' B" by blast
    have "D' = D" using chain_det D(1) D'(1) by blast
    with D D' have "prefix (rev D) (rev A)" "prefix (rev D) (rev B)"
      by (simp_all add: suffix_to_prefix)
    then have "prefix (rev D) L" unfolding L_def by (rule longest_common_prefix_max_prefix)
    then obtain M where M: "L = rev D @ M" by (auto simp: prefix_def)
    have rD: "r \<in> set D" by (rule ancestor_in_chain [OF rd D(1)])
    have Dne: "D \<noteq> []" and hdD: "hd D = d" using chain_hd [OF D(1)] by auto
    from L1 obtain zs where zs: "rev A = L @ zs" by (auto simp: prefix_def)
    have "distinct (rev A)" using dA by simp
    then have "distinct (L @ zs)" unfolding zs .
    then have "distinct L" by simp
    show False
    proof (cases "M = []")
      case True
      with M have "r = last (rev D)" by (simp add: r_def)
      then have "r = d" using Dne hdD by (simp add: last_rev)
      with ne show False by simp
    next
      case False
      with M have "r \<in> set M" by (simp add: r_def)
      with rD M \<open>distinct L\<close> show False by auto
    qed
  qed
  show ?thesis
  proof (cases "a = b")
    case True
    have "A = B" using chain_det A B True by blast
    then have "L = rev A" by (simp add: L_def longest_common_prefix_same)
    then have "r = a" using neA hdA by (simp add: r_def last_rev)
    with True anc_a anc_b minimal show ?thesis
      by (auto simp: leastCommonAncestor_def)
  next
    case False
    with hdA hdB have "A \<noteq> B" by auto
    then have "rev A \<noteq> rev B" by simp
    from lca_loop_lcp [OF this, of None] Lne
    have "leastCommonAncestor t a b = Some (Some r)"
      using False chain_ancestors [OF A] chain_ancestors [OF B]
      by (simp add: leastCommonAncestor_def L_def r_def)
    with anc_a anc_b minimal False show ?thesis by auto
  qed
qed

lemma scenario_eq:
  "scenario =
     \<lparr>heap = [\<lparr>outgoing = [], incoming = [], children = [1, 2], index = 0, parent = None\<rparr>,
              \<lparr>outgoing = [], incoming = [], children = [3, 4], index = 1, parent = Some 0\<rparr>,
              \<lparr>outgoing = [], incoming = [], children = [5], index = 2, parent = Some 0\<rparr>,
              \<lparr>outgoing = [], incoming = [], children = [], index = 3, parent = Some 1\<rparr>,
              \<lparr>outgoing = [], incoming = [], children = [], index = 4, parent = Some 1\<rparr>,
              \<lparr>outgoing = [], incoming = [], children = [], index = 5, parent = Some 2\<rparr>],
      nodes = [0, 1, 2, 3, 4, 5], root_node = 0\<rparr>"
  by (simp add: scenario_def Tree_def clear_def Node_def addChild_def upd_def Let_def)

lemma wf_scenario: "wf_tree scenario"
  unfolding scenario_eq
  by (simp add: wf_tree_def live_def obj_def upt_rec [of 1] upt_rec [of 2] upt_rec [of 3]
        upt_rec [of 4] upt_rec [of 5] upt_rec [of 6])

lemma lca_scenario: "leastCommonAncestor scenario 3 5 = Some (Some 0)"
  unfolding scenario_eq
  by (simp add: leastCommonAncestor_def ancestors_def ancestors_loop.simps lca_loop.simps
        pop_def obj_def)

theorem lca_correct_witness:
  "wf_tree scenario \<and> live scenario 3 \<and> live scenario 5 \<and>
   leastCommonAncestor scenario 3 5 = Some (Some 0) \<and>
   is_ancestor scenario 0 3 \<and> is_ancestor scenario 0 5 \<and>
   \<not> (is_ancestor scenario 1 3 \<and> is_ancestor scenario 1 5)"
proof -
  have l3: "live scenario 3" and l5: "live scenario 5"
    by (simp_all add: scenario_eq live_def)
  from lca_correct [OF wf_scenario l3 l5] obtain r where
    r: "leastCommonAncestor scenario 3 5 = Some (Some r)"
       "is_ancestor scenario r 3" "is_ancestor scenario r 5"
       "\<forall>d. is_ancestor scenario r d \<and> d \<noteq> r \<longrightarrow>
            \<not> (is_ancestor scenario d 3 \<and> is_ancestor scenario d 5)"
    by blast
  from r(1) have r0: "r = 0" by (simp add: lca_scenario)
  have "is_ancestor scenario 0 1"
    by (rule is_ancestor.up [where p = 0]) (simp_all add: scenario_eq obj_def is_ancestor.self)
  with r(4) r0 have "\<not> (is_ancestor scenario 1 3 \<and> is_ancestor scenario 1 5)"
    by (metis zero_neq_one)
  with r r0 l3 l5 wf_scenario show ?thesis by simp
qed

section \<open>The control points of an edge\<close>

text \<open>
  C4. In the tree \<open>scenario\<close> (leaf1 at index 3, A at 1, the root at 0, B at 2, leaf3 at 5),
  with the default \<open>transformPoint\<close> and any layout, \<open>_spline(3, 5)\<close> finds the root as the
  least common ancestor and, before it builds and straightens the spline, holds the points
  \<open>position(leaf1), position(A), position(root), position(B), position(leaf3)\<close> in this order.
\<close>

theorem spline_points_scenario:
  "nodes_at scenario 3 = Some 3 \<and> nodes_at scenario 5 = Some 5 \<and>
   parent (obj scenario 3) = Some 1 \<and> parent (obj scenario 1) = Some (root_node scenario) \<and>
   parent (obj scenario 5) = Some 2 \<and> parent (obj scenario 2) = Some (root_node scenario) \<and>
   spline_points scenario l 3 5 =
     Some (Inr (Some (root_node scenario),
                [position l (index (obj scenario 3)), position l (index (obj scenario 1)),
                 position l (index (obj scenario (root_node scenario))),
                 position l (index (obj scenario 2)), position l (index (obj scenario 5))]))"
  unfolding scenario_eq
  by (simp add: spline_points_def nodes_at_def leastCommonAncestor_def ancestors_def
        ancestors_loop.simps lca_loop.simps pop_def obj_def climb_start.simps climb_end.simps
        transformPoint_def)

section \<open>The circle layout of the scenario tree\<close>

lemma count_scenario:
  "count scenario 0 0 \<lparr>maxDepth = 0, depthByNode = Map.empty, countByNode = Map.empty\<rparr> =
     Some (5, \<lparr>maxDepth = 2,
               depthByNode = [0 \<mapsto> 0, 1 \<mapsto> 1, 3 \<mapsto> 2, 4 \<mapsto> 2, 2 \<mapsto> 1, 5 \<mapsto> 2],
               countByNode = [3 \<mapsto> 1, 4 \<mapsto> 1, 1 \<mapsto> 3, 5 \<mapsto> 1, 2 \<mapsto> 2, 0 \<mapsto> 5]\<rparr>)"
  unfolding scenario_eq count_def
  by (simp add: count_run.simps obj_def Let_def) (simp add: eval_nat_numeral)

lemma placeAll_scenario:
  fixes l :: layout and h :: "real vheap"
  defines "cs \<equiv> \<lparr>maxDepth = 2,
               depthByNode = [0 \<mapsto> 0, 1 \<mapsto> 1, 3 \<mapsto> 2, 4 \<mapsto> 2, 2 \<mapsto> 1, 5 \<mapsto> 2],
               countByNode = [3 \<mapsto> 1, 4 \<mapsto> 1, 1 \<mapsto> 3, 5 \<mapsto> 1, 2 \<mapsto> 2, 0 \<mapsto> (5::nat)]\<rparr>"
  assumes "sort_fn l = None"
  shows "\<exists>st. placeAll scenario cs 0 0 (2 * pi)
                 \<lparr>vectors = h, lay = l, spans = []\<rparr> = Some (Inr st) \<and>
           spans st = [(0, 0, 2 * pi), (1, 0, 6 * pi / 5), (3, 0, 2 * pi / 5),
                       (4, 2 * pi / 5, 4 * pi / 5), (2, 6 * pi / 5, 2 * pi),
                       (5, 6 * pi / 5, 8 * pi / 5)] \<and>
           angle (lay st) 3 = Some (pi / 5 - pi / 2) \<and>
           angle (lay st) 4 = Some (3 * pi / 5 - pi / 2) \<and>
           angle (lay st) 5 = Some (7 * pi / 5 - pi / 2)"
  using assms unfolding scenario_eq placeAll_def cs_def
  by (simp add: place_run.simps place_def new_Vector_def order_def obj_def Let_def angle_def)

text \<open>
  C5. For the tree \<open>scenario\<close> (root 0, A 1, B 2, leaf1 3, leaf2 4, leaf3 5; every node's index
  is its reference), with \<open>startAngle = 0\<close>, \<open>endAngle = 2 \<pi>\<close> and no \<open>sort\<close>, \<open>init\<close> returns
  with the weights 1 for each leaf, 3 for A, 2 for B and 5 for the root; the calls of
  \<open>placeAll\<close> give leaf1 the span \<open>[0, 2\<pi>/5]\<close>, leaf2 \<open>[2\<pi>/5, 4\<pi>/5]\<close> and leaf3
  \<open>[6\<pi>/5, 8\<pi>/5]\<close>, so that the span of leaf3 is half of that of leaf1 and leaf2 together; and
  \<open>place\<close>, which stores the angle it is passed less \<open>\<pi>/2\<close>, is passed \<open>\<pi>/5\<close>, \<open>3\<pi>/5\<close> and
  \<open>7\<pi>/5\<close> for the three leaves.
\<close>

theorem init_scenario:
  "\<exists>cs st. init scenario (h, l\<lparr>startAngle := 0, endAngle := 2 * pi, sort_fn := None\<rparr>)
             = Some (Inr (cs, st)) \<and>
     map (\<lambda>n. index (obj scenario n)) [0, 1, 2, 3, 4, 5] = [0, 1, 2, 3, 4, 5] \<and>
     map (countByNode cs) [3, 4, 5, 1, 2, 0] = [Some 1, Some 1, Some 1, Some 3, Some 2, Some 5] \<and>
     spans st = [(0, 0, 2 * pi), (1, 0, 6 * pi / 5), (3, 0, 2 * pi / 5),
                 (4, 2 * pi / 5, 4 * pi / 5), (2, 6 * pi / 5, 2 * pi),
                 (5, 6 * pi / 5, 8 * pi / 5)] \<and>
     8 * pi / 5 - 6 * pi / 5 = (4 * pi / 5 - 0) / 2 \<and>
     angle (lay st) 3 = Some (pi / 5 - pi / 2) \<and>
     angle (lay st) 4 = Some (3 * pi / 5 - pi / 2) \<and>
     angle (lay st) 5 = Some (7 * pi / 5 - pi / 2)"
proof -
  have root: "root_node scenario = 0" and idx:
    "map (\<lambda>n. index (obj scenario n)) [0, 1, 2, 3, 4, 5] = [0, 1, 2, 3, 4, 5]"
    by (simp_all add: scenario_eq obj_def)
  define l' where "l' = l\<lparr>startAngle := 0, endAngle := 2 * pi, sort_fn := None,
                         positions := Map.empty, angles := Map.empty\<rparr>"
  have "sort_fn l' = None" by (simp add: l'_def)
  from placeAll_scenario [OF this, of h]
  obtain st where st:
    "placeAll scenario
       \<lparr>maxDepth = 2,
         depthByNode = [0 \<mapsto> 0, 1 \<mapsto> 1, 3 \<mapsto> 2, 4 \<mapsto> 2, 2 \<mapsto> 1, 5 \<mapsto> 2],
         countByNode = [3 \<mapsto> 1, 4 \<mapsto> 1, 1 \<mapsto> 3, 5 \<mapsto> 1, 2 \<mapsto> 2, 0 \<mapsto> 5]\<rparr>
       0 0 (2 * pi) \<lparr>vectors = h, lay = l', spans = []\<rparr> = Some (Inr st)"
    "spans st = [(0, 0, 2 * pi), (1, 0, 6 * pi / 5), (3, 0, 2 * pi / 5),
                 (4, 2 * pi / 5, 4 * pi / 5), (2, 6 * pi / 5, 2 * pi),
                 (5, 6 * pi / 5, 8 * pi / 5)]"
    "angle (lay st) 3 = Some (pi / 5 - pi / 2)"
    "angle (lay st) 4 = Some (3 * pi / 5 - pi / 2)"
    "angle (lay st) 5 = Some (7 * pi / 5 - pi / 2)"
    by blast
  have "init scenario (h, l\<lparr>startAngle := 0, endAngle := 2 * pi, sort_fn := None\<rparr>) =
          Some (Inr (\<lparr>maxDepth = 2,
             depthByNode = [0 \<mapsto> 0, 1 \<mapsto> 1, 3 \<mapsto> 2, 4 \<mapsto> 2, 2 \<mapsto> 1, 5 \<mapsto> 2],
             countByNode = [3 \<mapsto> 1, 4 \<mapsto> 1, 1 \<mapsto> 3, 5 \<mapsto> 1, 2 \<mapsto> 2, 0 \<mapsto> 5]\<rparr>, st))"
    unfolding init_def root count_scenario using st(1) by (simp add: Let_def l'_def)
  with st(2-5) idx show ?thesis by simp
qed

section \<open>Intersection of collinear segments\<close>

lemma kernel_cross:
  fixes a b ux uy wx wy :: real
  assumes "a \<noteq> 0 \<or> b \<noteq> 0" "a * ux + b * uy = 0" "a * wx + b * wy = 0"
  shows "ux * wy - uy * wx = 0"
proof -
  have "a * (ux * wy - uy * wx) = (a * ux) * wy - uy * (a * wx)" by (simp add: algebra_simps)
  also have "\<dots> = (- b * uy) * wy - uy * (- b * wy)" using assms(2,3) by (simp add: algebra_simps add_eq_0_iff)
  also have "\<dots> = 0" by (simp add: algebra_simps)
  finally have A: "a * (ux * wy - uy * wx) = 0" .
  have "b * (ux * wy - uy * wx) = ux * (b * wy) - (b * uy) * wx" by (simp add: algebra_simps)
  also have "\<dots> = ux * (- a * wx) - (- a * ux) * wx" using assms(2,3) by (simp add: algebra_simps add_eq_0_iff)
  also have "\<dots> = 0" by (simp add: algebra_simps)
  finally have B: "b * (ux * wy - uy * wx) = 0" .
  from A B assms(1) show ?thesis by auto
qed

text \<open>
  When all coordinates are integers of magnitude at most \<open>2^25\<close>, the differences are
  integers of magnitude at most \<open>2^26\<close> and the products integers of magnitude at most
  \<open>2^52\<close>: none of them is rounded.
\<close>

lemma exact_diff_int:
  fixes a b :: int
  assumes "\<bar>a\<bar> \<le> 2 ^ 25" "\<bar>b\<bar> \<le> 2 ^ 25"
  shows "exact (of_int a - of_int b)"
proof -
  have "\<bar>a - b\<bar> \<le> 2 ^ 53" using assms by simp
  from exact_int [OF this] show ?thesis by simp
qed

lemma exact_prod_int:
  fixes a b c d :: int
  assumes "\<bar>a\<bar> \<le> 2 ^ 25" "\<bar>b\<bar> \<le> 2 ^ 25" "\<bar>c\<bar> \<le> 2 ^ 25" "\<bar>d\<bar> \<le> 2 ^ 25"
  shows "exact ((of_int a - of_int b) * (of_int c - of_int d))"
    and "exact ((of_int a - of_int b) * (- (of_int c - of_int d)))"
proof -
  have "\<bar>a - b\<bar> \<le> 2 ^ 26" "\<bar>c - d\<bar> \<le> 2 ^ 26" using assms by simp_all
  then have "\<bar>a - b\<bar> * \<bar>c - d\<bar> \<le> 2 ^ 26 * 2 ^ 26" by (intro mult_mono) simp_all
  then have b: "\<bar>(a - b) * (c - d)\<bar> \<le> 2 ^ 53" by (simp add: abs_mult)
  from exact_int [OF b] show "exact ((of_int a - of_int b) * (of_int c - of_int d))" by simp
  have "\<bar>(a - b) * (- (c - d))\<bar> = \<bar>(a - b) * (c - d)\<bar>" by (simp only: mult_minus_right abs_minus_cancel)
  with b have "\<bar>(a - b) * (- (c - d))\<bar> \<le> 2 ^ 53" by (simp only:)
  from exact_int [OF this] show "exact ((of_int a - of_int b) * (- (of_int c - of_int d)))" by simp
qed

lemma unrounded_integers:
  fixes a1 b1 a2 b2 a3 b3 a4 b4 :: int
  assumes "\<bar>a1\<bar> \<le> 2 ^ 25" "\<bar>b1\<bar> \<le> 2 ^ 25" "\<bar>a2\<bar> \<le> 2 ^ 25" "\<bar>b2\<bar> \<le> 2 ^ 25"
          "\<bar>a3\<bar> \<le> 2 ^ 25" "\<bar>b3\<bar> \<le> 2 ^ 25" "\<bar>a4\<bar> \<le> 2 ^ 25" "\<bar>b4\<bar> \<le> 2 ^ 25"
  shows "unrounded (Vector (of_int a1) (of_int b1)) (Vector (of_int a2) (of_int b2))
           (Vector (of_int a3) (of_int b3)) (Vector (of_int a4) (of_int b4))"
  unfolding unrounded_def Let_def vector.sel
  by (intro conjI exact_diff_int exact_prod_int assms)

text \<open>
  C10, as amended. For all segments \<open>p1 p2\<close> and \<open>q1 q2\<close> whose four end points are collinear
  and for which the six differences of coordinates and the six products that
  \<open>Line.intersect(p1, p2, q1, q2)\<close> forms are computed without rounding, it returns true,
  whether or not the segments meet: the three values \<open>d\<close>, \<open>f\<close> and \<open>e\<close> it tests are all zero.
\<close>

theorem Line_intersect_collinear:
  assumes "collinear4 p1 p2 q1 q2" and "unrounded p1 p2 q1 q2"
  shows "Line_intersect (doubles p1) (doubles p2) (doubles q1) (doubles q2) \<and>
         dot (Vector (dsub (vx (doubles p1)) (vx (doubles q1))) (dsub (vy (doubles p1)) (vy (doubles q1))))
           (perp (Vector (dsub (vx (doubles q2)) (vx (doubles q1)))
                    (dsub (vy (doubles q2)) (vy (doubles q1))))) = Finite 0 \<and>
         dot (Vector (dsub (vx (doubles q2)) (vx (doubles q1))) (dsub (vy (doubles q2)) (vy (doubles q1))))
           (Vector (dsub (vy (doubles p1)) (vy (doubles p2)))
              (dsub (vx (doubles p2)) (vx (doubles p1)))) = Finite 0 \<and>
         dot (Vector (dsub (vx (doubles p1)) (vx (doubles q1))) (dsub (vy (doubles p1)) (vy (doubles q1))))
           (Vector (dsub (vy (doubles p1)) (vy (doubles p2)))
              (dsub (vx (doubles p2)) (vx (doubles p1)))) = Finite 0"
proof -
  define ax ay bx "by" cx cy where
    "ax = vx q2 - vx q1" and "ay = vy q2 - vy q1" and
    "bx = vy p1 - vy p2" and "by = vx p2 - vx p1" and
    "cx = vx p1 - vx q1" and "cy = vy p1 - vy q1"
  note defs = ax_def ay_def bx_def by_def cx_def cy_def
  from assms(2) have ex:
    "exact ax" "exact ay" "exact bx" "exact by" "exact cx" "exact cy"
    "exact (cx * (- ay))" "exact (cy * ax)" "exact (ax * bx)" "exact (ay * by)"
    "exact (cx * bx)" "exact (cy * by)"
    unfolding unrounded_def Let_def defs by blast+
  from assms(1) obtain a b c where
    ab: "a \<noteq> 0 \<or> b \<noteq> 0" and
    l1: "a * vx p1 + b * vy p1 = c" and l2: "a * vx p2 + b * vy p2 = c" and
    l3: "a * vx q1 + b * vy q1 = c" and l4: "a * vx q2 + b * vy q2 = c"
    unfolding collinear4_def by blast
  have u: "a * ax + b * ay = 0" using l3 l4 by (simp add: defs algebra_simps)
  have v: "a * (- by) + b * bx = 0" using l1 l2 by (simp add: defs algebra_simps)
  have w: "a * cx + b * cy = 0" using l1 l3 by (simp add: defs algebra_simps)
  have d0: "cx * (- ay) + cy * ax = 0" using kernel_cross [OF ab u w] by (simp add: algebra_simps)
  have f0: "ax * bx + ay * by = 0" using kernel_cross [OF ab u v] by (simp add: algebra_simps)
  have e0: "cx * bx + cy * by = 0" using kernel_cross [OF ab w v] by (simp add: algebra_simps)
  have A: "Vector (dsub (vx (doubles q2)) (vx (doubles q1))) (dsub (vy (doubles q2)) (vy (doubles q1)))
             = Vector (Finite ax) (Finite ay)"
    using ex(1,2) by (simp add: doubles_def dsub_exact defs)
  have B: "Vector (dsub (vy (doubles p1)) (vy (doubles p2))) (dsub (vx (doubles p2)) (vx (doubles p1)))
             = Vector (Finite bx) (Finite by)"
    using ex(3,4) by (simp add: doubles_def dsub_exact defs)
  have C: "Vector (dsub (vx (doubles p1)) (vx (doubles q1))) (dsub (vy (doubles p1)) (vy (doubles q1)))
             = Vector (Finite cx) (Finite cy)"
    using ex(5,6) by (simp add: doubles_def dsub_exact defs)
  have d: "dot (Vector (Finite cx) (Finite cy)) (perp (Vector (Finite ax) (Finite ay))) = Finite 0"
    unfolding dot_def perp_def vector.sel dneg.simps dmul_exact [OF ex(7)] dmul_exact [OF ex(8)]
      dadd.simps d0 by (rule rnd_0)
  have f: "dot (Vector (Finite ax) (Finite ay)) (Vector (Finite bx) (Finite by)) = Finite 0"
    unfolding dot_def vector.sel dmul_exact [OF ex(9)] dmul_exact [OF ex(10)] dadd.simps f0
    by (rule rnd_0)
  have e: "dot (Vector (Finite cx) (Finite cy)) (Vector (Finite bx) (Finite by)) = Finite 0"
    unfolding dot_def vector.sel dmul_exact [OF ex(11)] dmul_exact [OF ex(12)] dadd.simps e0
    by (rule rnd_0)
  have "Line_intersect (doubles p1) (doubles p2) (doubles q1) (doubles q2)"
    unfolding Line_intersect_def Let_def A B C d f e by (simp add: dgt_def)
  then show ?thesis unfolding A B C d f e by simp
qed


theorem Line_intersect_collinear_witness:
  "collinear4 (Vector 0 0) (Vector 1 0) (Vector 2 0) (Vector 3 0) \<and>
   unrounded (Vector 0 0) (Vector 1 0) (Vector 2 0) (Vector 3 0) \<and>
   Line_intersect (doubles (Vector 0 0)) (doubles (Vector 1 0)) (doubles (Vector 2 0))
     (doubles (Vector 3 0))"
proof -
  have c: "collinear4 (Vector 0 0) (Vector 1 0) (Vector 2 0) (Vector 3 0)"
    unfolding collinear4_def
    by (rule exI [of _ 0], rule exI [of _ 1], rule exI [of _ 0]) simp
  have u: "unrounded (Vector 0 0) (Vector 1 0) (Vector 2 0) (Vector 3 0)"
    by (simp add: unrounded_def Let_def exact_small)
  from Line_intersect_collinear [OF c u] c u show ?thesis by simp
qed


text \<open>
  With rounding it returns false on collinear end points. The points
  \<open>p1 = (2^53 + 4, 3 (2^53 + 4))\<close>, \<open>p2 = (0, 0)\<close>, \<open>q1 = (1, 3)\<close> and \<open>q2 = (2, 6)\<close> lie on
  the line \<open>y = 3 x\<close> and all their coordinates are doubles. The differences \<open>p1.x - q1.x\<close>
  and \<open>p1.y - q1.y\<close> are rounded to \<open>2^53 + 4\<close> and \<open>3 (2^53 + 4) - 4\<close>, so that \<open>d\<close> is
  \<open>-4\<close> while \<open>f\<close> is 0.
\<close>

theorem Line_intersect_rounding_counterexample:
  "exact 9007199254740996 \<and> exact 27021597764222988 \<and>
   collinear4 (Vector 9007199254740996 27021597764222988) (Vector 0 0) (Vector 1 3) (Vector 2 6) \<and>
   \<not> Line_intersect (doubles (Vector 9007199254740996 27021597764222988)) (doubles (Vector 0 0))
       (doubles (Vector 1 3)) (doubles (Vector 2 6))"
proof -
  have c: "collinear4 (Vector 9007199254740996 27021597764222988) (Vector 0 0) (Vector 1 3) (Vector 2 6)"
    unfolding collinear4_def
    by (rule exI [of _ 3], rule exI [of _ "- 1"], rule exI [of _ 0]) simp
  have "\<not> Line_intersect (doubles (Vector 9007199254740996 27021597764222988)) (doubles (Vector 0 0))
       (doubles (Vector 1 3)) (doubles (Vector 2 6))"
    by (simp add: Line_intersect_def doubles_def Let_def dot_def perp_def dsub_def dgt_def
          rnd_big rnd_small)
  with c show ?thesis by (simp add: exact_def rnd_big)
qed

section \<open>Flattening\<close>

subsection \<open>The formula of \<open>Line.distance\<close>, in exact arithmetic, is the distance to a line\<close>

lemma lagrange:
  fixes ux uy vx' vy' :: real
  shows "(ux * vy' - uy * vx')\<^sup>2 \<le> (vx'\<^sup>2 + vy'\<^sup>2) * (ux\<^sup>2 + uy\<^sup>2)"
proof -
  have "(vx'\<^sup>2 + vy'\<^sup>2) * (ux\<^sup>2 + uy\<^sup>2) - (ux * vy' - uy * vx')\<^sup>2 = (vx' * ux + vy' * uy)\<^sup>2"
    by (simp add: power2_eq_square algebra_simps)
  moreover have "0 \<le> (vx' * ux + vy' * uy)\<^sup>2" by simp
  ultimately show ?thesis by linarith
qed

lemma line_dist_le:
  fixes ux uy wx wy t :: real
  assumes "ux \<noteq> 0 \<or> uy \<noteq> 0"
  shows "\<bar>ux * wy - uy * wx\<bar> / sqrt (ux * ux + uy * uy)
           \<le> sqrt ((wx - t * ux) * (wx - t * ux) + (wy - t * uy) * (wy - t * uy))"
proof -
  let ?U = "ux * ux + uy * uy"
  let ?S = "(wx - t * ux) * (wx - t * ux) + (wy - t * uy) * (wy - t * uy)"
  have Upos: "0 < ?U" using assms by (metis add_pos_nonneg add_nonneg_pos mult.commute not_real_square_gt_zero zero_le_square)
  have c: "ux * wy - uy * wx = ux * (wy - t * uy) - uy * (wx - t * ux)"
    by (simp add: algebra_simps)
  have "(ux * wy - uy * wx)\<^sup>2 \<le> ?S * ?U"
    using lagrange [of ux "wy - t * uy" uy "wx - t * ux"] unfolding c
    by (simp add: power2_eq_square algebra_simps)
  then have "(ux * wy - uy * wx)\<^sup>2 / ?U \<le> ?S"
    using Upos by (simp add: pos_divide_le_eq)
  moreover have "(\<bar>ux * wy - uy * wx\<bar> / sqrt ?U)\<^sup>2 = (ux * wy - uy * wx)\<^sup>2 / ?U"
    using Upos by (simp add: power_divide)
  ultimately have "(\<bar>ux * wy - uy * wx\<bar> / sqrt ?U)\<^sup>2 \<le> ?S" by simp
  then show ?thesis by (rule real_le_rsqrt)
qed

lemma times_eq_divide:
  fixes S U X :: real
  shows "0 < U \<Longrightarrow> S * U = X \<Longrightarrow> S = X / U"
  by (simp add: field_simps)

lemma line_dist_attained:
  fixes ux uy wx wy :: real
  assumes "ux \<noteq> 0 \<or> uy \<noteq> 0"
  defines "t \<equiv> (wx * ux + wy * uy) / (ux * ux + uy * uy)"
  shows "sqrt ((wx - t * ux) * (wx - t * ux) + (wy - t * uy) * (wy - t * uy))
           = \<bar>ux * wy - uy * wx\<bar> / sqrt (ux * ux + uy * uy)"
proof -
  let ?U = "ux * ux + uy * uy"
  let ?S = "(wx - t * ux) * (wx - t * ux) + (wy - t * uy) * (wy - t * uy)"
  have Upos: "0 < ?U" using assms(1) by (metis add_pos_nonneg add_nonneg_pos mult.commute not_real_square_gt_zero zero_le_square)
  have tU: "t * ?U = wx * ux + wy * uy" using Upos by (simp add: t_def)
  have "?S * ?U = (wx * wx + wy * wy) * ?U - 2 * (t * ?U) * (wx * ux + wy * uy) + (t * ?U) * (t * ?U)"
    by (simp add: algebra_simps)
  also have "\<dots> = (wx * wx + wy * wy) * ?U - (wx * ux + wy * uy) * (wx * ux + wy * uy)"
    unfolding tU by (simp add: algebra_simps)
  also have "\<dots> = (ux * wy - uy * wx)\<^sup>2"
    by (simp add: power2_eq_square algebra_simps)
  finally have "?S * ?U = (ux * wy - uy * wx)\<^sup>2" .
  then have "?S = (ux * wy - uy * wx)\<^sup>2 / ?U"
    by (rule times_eq_divide [OF Upos])
  then have "sqrt ?S = sqrt ((ux * wy - uy * wx)\<^sup>2 / ?U)" by simp
  also have "\<dots> = \<bar>ux * wy - uy * wx\<bar> / sqrt ?U"
    by (simp add: real_sqrt_divide)
  finally show ?thesis .
qed

lemma exact_gap_near_line: "exact_gap a d p \<le> fl \<longleftrightarrow> near_line fl a d p"
proof (cases "vx d - vx a = 0 \<and> vy d - vy a = 0")
  case True
  have "(vx a - vx p) * (vx a - vx p) = (vx p - vx a) * (vx p - vx a)"
       "(vy a - vy p) * (vy a - vy p) = (vy p - vy a) * (vy p - vy a)"
    by (simp_all add: algebra_simps)
  with True show ?thesis
    by (simp add: exact_gap_def near_line_def on_line_def Let_def)
next
  case False
  let ?ux = "vx d - vx a" and ?uy = "vy d - vy a"
  let ?wx = "vx p - vx a" and ?wy = "vy p - vy a"
  have ne: "?ux \<noteq> 0 \<or> ?uy \<noteq> 0" using False by simp
  have LD: "exact_gap a d p = \<bar>?ux * ?wy - ?uy * ?wx\<bar> / sqrt (?ux * ?ux + ?uy * ?uy)"
  proof -
    have "\<bar>?ux * (vy a - vy p) - ?uy * (vx a - vx p)\<bar> = \<bar>?ux * ?wy - ?uy * ?wx\<bar>"
    proof -
      have "?ux * (vy a - vy p) - ?uy * (vx a - vx p) = - (?ux * ?wy - ?uy * ?wx)"
        by (simp add: algebra_simps)
      then show ?thesis by (simp only: abs_minus)
    qed
    with False show ?thesis
      by (simp only: exact_gap_def Let_def if_False)
  qed
  have VD: "sqrt ((vx p - vx (on_line a d u)) * (vx p - vx (on_line a d u))
                + (vy p - vy (on_line a d u)) * (vy p - vy (on_line a d u)))
              = sqrt ((?wx - u * ?ux) * (?wx - u * ?ux) + (?wy - u * ?uy) * (?wy - u * ?uy))" for u
    by (simp add: on_line_def algebra_simps)
  show ?thesis
  proof
    assume "exact_gap a d p \<le> fl"
    with LD line_dist_attained [OF ne, of ?wx ?wy] show "near_line fl a d p"
      unfolding near_line_def VD by (intro exI [of _ "(?wx * ?ux + ?wy * ?uy) / (?ux * ?ux + ?uy * ?uy)"]) simp
  next
    assume "near_line fl a d p"
    then obtain u where "sqrt ((?wx - u * ?ux) * (?wx - u * ?ux) + (?wy - u * ?uy) * (?wy - u * ?uy)) \<le> fl"
      unfolding near_line_def VD by blast
    with line_dist_le [OF ne, of ?wy ?wx u] LD
    show "exact_gap a d p \<le> fl" by linarith
  qed
qed


lemma exact_gap_tilted: "exact_gap (Vector 0 0) (Vector 1 1) (Vector 0 root2) = root2 / sqrt 2"
  using root2_pos by (simp add: exact_gap_def Let_def)

subsection \<open>The distance test and the weights of \<open>addCurve\<close>\<close>

lemma Line_distance_gap:
  "Line_distance (Line (vx a) (vy a) (vx d) (vy d)) (vx p) (vy p) = line_gap a d p"
  by (simp add: Line_distance_def Line_def Line_start_def Line_end_def segments_def
        Vector_distance_def line_gap_def Let_def)

lemma Line_distance_within_line:
  "dle (Line_distance (Line (vx a) (vy a) (vx d) (vy d)) (vx p) (vy p)) fl \<longleftrightarrow> within_line fl a d p"
  by (simp add: Line_distance_gap within_line_def)

lemma quot_eighths:
  "quot 0 8 = Finite 0" "quot 1 8 = Finite (1/8)" "quot 2 8 = Finite (1/4)"
  "quot 3 8 = Finite (3/8)" "quot 4 8 = Finite (1/2)" "quot 8 8 = Finite 1"
  by (simp_all add: quot_def rnd_small)

lemma weights_blend:
  "weightCurve (bezierLeft ! 1) a b c d = blend (1/2) (1/2) 0 0 a b c d"
  "weightCurve (bezierLeft ! Suc 0) a b c d = blend (1/2) (1/2) 0 0 a b c d"
  "weightCurve (bezierLeft ! 2) a b c d = blend (1/4) (1/2) (1/4) 0 a b c d"
  "weightCurve (bezierLeft ! 3) a b c d = blend (1/8) (3/8) (3/8) (1/8) a b c d"
  "weightCurve (bezierRight ! 1) a b c d = blend 0 (1/4) (1/2) (1/4) a b c d"
  "weightCurve (bezierRight ! Suc 0) a b c d = blend 0 (1/4) (1/2) (1/4) a b c d"
  "weightCurve (bezierRight ! 2) a b c d = blend 0 0 (1/2) (1/2) a b c d"
  by (simp_all add: weightCurve_def weigh_def bezierLeft_def bezierRight_def blend_def quot_eighths
        eval_nat_numeral)

subsection \<open>\<open>addCurve\<close> and \<open>flatten\<close> follow the recursion\<close>

lemma lineTo_point:
  "segs that = Some acc \<Longrightarrow> lineTo (vx d) (vy d) that = that\<lparr>segs := Some (acc @ [SEG_LINE d])\<rparr>"
  by (simp add: lineTo_def segments_def)

lemma addCurve_subdivides_aux:
  assumes "addCurve fl a b c d that = Some q"
  shows "\<forall>acc. segs that = Some acc \<longrightarrow>
     (\<exists>ps. subdivides (within_line fl) a b c d ps \<and> q = that\<lparr>segs := Some (acc @ map SEG_LINE ps)\<rparr>)"
proof (rule addCurve.raw_induct [where P = "\<lambda>fl a b c d that q. \<forall>acc. segs that = Some acc \<longrightarrow>
     (\<exists>ps. subdivides (within_line fl) a b c d ps \<and> q = that\<lparr>segs := Some (acc @ map SEG_LINE ps)\<rparr>)",
     OF _ assms], goal_cases)
  case (1 f fl a b c d that q)
  note IH = 1(1) and body = 1(2)
  show ?case
  proof (intro allI impI)
    fix acc
    assume acc: "segs that = Some acc"
    show "\<exists>ps. subdivides (within_line fl) a b c d ps \<and> q = that\<lparr>segs := Some (acc @ map SEG_LINE ps)\<rparr>"
    proof (cases "within_line fl a d b \<and> within_line fl a d c")
      case True
      with body have "q = lineTo (vx d) (vy d) that"
        by (simp add: Line_distance_within_line)
      with True acc show ?thesis
        by (intro exI [of _ "[d]"]) (auto simp: lineTo_point intro: subdivides.emit)
    next
      case False
      with body obtain that' where
        l: "f fl a (blend (1/2) (1/2) 0 0 a b c d) (blend (1/4) (1/2) (1/4) 0 a b c d)
              (blend (1/8) (3/8) (3/8) (1/8) a b c d) that = Some that'" and
        r: "f fl (blend (1/8) (3/8) (3/8) (1/8) a b c d) (blend 0 (1/4) (1/2) (1/4) a b c d)
              (blend 0 0 (1/2) (1/2) a b c d) d that' = Some q"
        by (auto simp: Line_distance_within_line weights_blend split: bind_splits)
      from IH [OF l] acc obtain ls where
        ls: "subdivides (within_line fl) a (blend (1/2) (1/2) 0 0 a b c d) (blend (1/4) (1/2) (1/4) 0 a b c d)
              (blend (1/8) (3/8) (3/8) (1/8) a b c d) ls"
            "that' = that\<lparr>segs := Some (acc @ map SEG_LINE ls)\<rparr>" by blast
      from ls(2) have "segs that' = Some (acc @ map SEG_LINE ls)" by simp
      with IH [OF r] obtain rs where
        rs: "subdivides (within_line fl) (blend (1/8) (3/8) (3/8) (1/8) a b c d) (blend 0 (1/4) (1/2) (1/4) a b c d)
              (blend 0 0 (1/2) (1/2) a b c d) d rs"
            "q = that'\<lparr>segs := Some ((acc @ map SEG_LINE ls) @ map SEG_LINE rs)\<rparr>" by blast
      from subdivides.split [OF False ls(1) rs(1)] ls(2) rs(2) show ?thesis
        by (intro exI [of _ "ls @ rs"]) simp
    qed
  qed
qed

lemma addCurve_subdivides:
  "addCurve fl a b c d that = Some q \<Longrightarrow> segs that = Some acc \<Longrightarrow>
     \<exists>ps. subdivides (within_line fl) a b c d ps \<and> q = that\<lparr>segs := Some (acc @ map SEG_LINE ps)\<rparr>"
  using addCurve_subdivides_aux by blast

lemma subdivides_addCurve:
  "subdivides (within_line fl) a b c d ps \<Longrightarrow> segs that = Some acc \<Longrightarrow>
     addCurve fl a b c d that = Some (that\<lparr>segs := Some (acc @ map SEG_LINE ps)\<rparr>)"
proof (induction arbitrary: that acc rule: subdivides.induct)
  case (emit a d b c)
  then show ?case
    by (subst addCurve.simps) (simp add: Line_distance_within_line lineTo_point)
next
  case (split a d b c ls rs)
  from split.IH(1) [OF split.prems]
  have l: "addCurve fl a (blend (1/2) (1/2) 0 0 a b c d) (blend (1/4) (1/2) (1/4) 0 a b c d)
              (blend (1/8) (3/8) (3/8) (1/8) a b c d) that
           = Some (that\<lparr>segs := Some (acc @ map SEG_LINE ls)\<rparr>)" .
  have "segs (that\<lparr>segs := Some (acc @ map SEG_LINE ls)\<rparr>) = Some (acc @ map SEG_LINE ls)" by simp
  from split.IH(2) [OF this]
  have r: "addCurve fl (blend (1/8) (3/8) (3/8) (1/8) a b c d) (blend 0 (1/4) (1/2) (1/4) a b c d)
              (blend 0 0 (1/2) (1/2) a b c d) d (that\<lparr>segs := Some (acc @ map SEG_LINE ls)\<rparr>)
           = Some (that\<lparr>segs := Some ((acc @ map SEG_LINE ls) @ map SEG_LINE rs)\<rparr>)" by simp
  from split.hyps(1)
  have c: "\<not> (dle (Line_distance (Line (vx a) (vy a) (vx d) (vy d)) (vx b) (vy b)) fl
         \<and> dle (Line_distance (Line (vx a) (vy a) (vx d) (vy d)) (vx c) (vy c)) fl)"
    by (simp add: Line_distance_within_line)
  show ?case
    by (subst addCurve.simps) (simp add: c weights_blend l r)
qed

lemma addCurve_iff:
  assumes "segs that = Some acc"
  shows "addCurve fl a b c d that = Some q \<longleftrightarrow>
     (\<exists>ps. subdivides (within_line fl) a b c d ps \<and> q = that\<lparr>segs := Some (acc @ map SEG_LINE ps)\<rparr>)"
  using addCurve_subdivides [OF _ assms] subdivides_addCurve [OF _ assms] by auto

lemma flattened_Nil: "flattened near prev [] out \<longleftrightarrow> out = []"
  by (auto elim: flattened.cases intro: flattened.stop)

lemma flattened_keep:
  "\<not> is_bezier s \<Longrightarrow>
   flattened near prev (s # ss) out \<longleftrightarrow> (\<exists>out'. flattened near (Some s) ss out' \<and> out = s # out')"
  by (auto elim: flattened.cases intro: flattened.keep)

lemma flattened_curve:
  "flattened near prev (SEG_BEZIER p cp1 cp2 # ss) out \<longleftrightarrow>
     (\<exists>s0 ps out'. prev = Some s0 \<and> subdivides near (points0 s0) cp1 cp2 p ps \<and>
        flattened near (Some (SEG_BEZIER p cp1 cp2)) ss out' \<and> out = map SEG_LINE ps @ out')"
proof
  assume "flattened near prev (SEG_BEZIER p cp1 cp2 # ss) out"
  then show "\<exists>s0 ps out'. prev = Some s0 \<and> subdivides near (points0 s0) cp1 cp2 p ps \<and>
        flattened near (Some (SEG_BEZIER p cp1 cp2)) ss out' \<and> out = map SEG_LINE ps @ out'"
    by (cases rule: flattened.cases) auto
qed (auto intro: flattened.curve)

lemma flatten_loop_iff:
  "i \<le> length ss \<Longrightarrow> segs that = Some acc \<Longrightarrow>
   flatten_loop fl ss i that = Some (Inr q) \<longleftrightarrow>
     (\<exists>out. flattened (within_line fl) (if i = 0 then None else Some (ss ! (i - 1))) (drop i ss) out \<and>
            q = that\<lparr>segs := Some (acc @ out)\<rparr>)"
proof (induction "length ss - i" arbitrary: i that acc)
  case 0
  then have "i = length ss" by simp
  with 0 show ?case
    by (subst flatten_loop.simps) (auto simp: flattened_Nil)
next
  case (Suc n)
  then have lt: "i < length ss" by simp
  have d: "drop i ss = ss ! i # drop (Suc i) ss" using lt by (simp add: Cons_nth_drop_Suc)
  have n: "n = length ss - Suc i" using Suc.hyps(2) by simp
  have le: "Suc i \<le> length ss" using lt by simp
  show ?case
  proof (cases "ss ! i")
    case (SEG_MOVE p)
    have "segs (that\<lparr>segs := Some (segments that @ [ss ! i])\<rparr>) = Some (acc @ [ss ! i])"
      using Suc.prems(2) by (simp add: segments_def)
    from Suc.hyps(1) [OF n le this] SEG_MOVE lt show ?thesis
      by (subst flatten_loop.simps) (simp add: d flattened_keep, blast)
  next
    case (SEG_LINE p)
    have "segs (that\<lparr>segs := Some (segments that @ [ss ! i])\<rparr>) = Some (acc @ [ss ! i])"
      using Suc.prems(2) by (simp add: segments_def)
    from Suc.hyps(1) [OF n le this] SEG_LINE lt show ?thesis
      by (subst flatten_loop.simps) (simp add: d flattened_keep, blast)
  next
    case (SEG_BEZIER p cp1 cp2)
    show ?thesis
    proof (cases "i = 0")
      case True
      have nf: "\<not> flattened (within_line fl) None (drop i ss) out" for out
        unfolding d SEG_BEZIER by (simp add: flattened_curve)
      have "flatten_loop fl ss i that = Some (Inl TypeError)"
        using True SEG_BEZIER lt by (subst flatten_loop.simps) simp
      with nf True show ?thesis by simp
    next
      case False
      show ?thesis
      proof (cases "addCurve fl (points0 (ss ! (i - 1))) cp1 cp2 p that")
        case None
        then have "\<not> subdivides (within_line fl) (points0 (ss ! (i - 1))) cp1 cp2 p ps" for ps
          using subdivides_addCurve [OF _ Suc.prems(2)] by fastforce
        with None False SEG_BEZIER lt show ?thesis
          by (subst flatten_loop.simps) (simp add: d flattened_curve)
      next
        case (Some that')
        from addCurve_subdivides [OF Some Suc.prems(2)] obtain ps where
          ps: "subdivides (within_line fl) (points0 (ss ! (i - 1))) cp1 cp2 p ps"
              "that' = that\<lparr>segs := Some (acc @ map SEG_LINE ps)\<rparr>" by blast
        have uniq: "ps' = ps" if "subdivides (within_line fl) (points0 (ss ! (i - 1))) cp1 cp2 p ps'" for ps'
        proof -
          from subdivides_addCurve [OF that Suc.prems(2)] Some ps(2)
          have "that\<lparr>segs := Some (acc @ map SEG_LINE ps')\<rparr> = that\<lparr>segs := Some (acc @ map SEG_LINE ps)\<rparr>"
            by simp
          then have "segs (that\<lparr>segs := Some (acc @ map SEG_LINE ps')\<rparr>)
                       = segs (that\<lparr>segs := Some (acc @ map SEG_LINE ps)\<rparr>)" by simp
          then have "map SEG_LINE ps' = map SEG_LINE ps" by simp
          then show ?thesis by (simp add: inj_map_eq_map inj_on_def)
        qed
        have s': "segs that' = Some (acc @ map SEG_LINE ps)" using ps(2) by simp
        have "flatten_loop fl ss i that = flatten_loop fl ss (i + 1) that'"
          using Some False SEG_BEZIER lt by (subst flatten_loop.simps) simp
        also have "\<dots> = Some (Inr q) \<longleftrightarrow>
            (\<exists>out. flattened (within_line fl) (Some (ss ! i)) (drop (Suc i) ss) out \<and>
               q = that'\<lparr>segs := Some ((acc @ map SEG_LINE ps) @ out)\<rparr>)"
          using Suc.hyps(1) [OF n le s'] by simp
        also have "\<dots> \<longleftrightarrow>
            (\<exists>out. flattened (within_line fl) (Some (ss ! (i - 1))) (drop i ss) out \<and>
               q = that\<lparr>segs := Some (acc @ out)\<rparr>)"
        proof
          assume "\<exists>out. flattened (within_line fl) (Some (ss ! i)) (drop (Suc i) ss) out \<and>
               q = that'\<lparr>segs := Some ((acc @ map SEG_LINE ps) @ out)\<rparr>"
          then obtain out where o:
            "flattened (within_line fl) (Some (SEG_BEZIER p cp1 cp2)) (drop (Suc i) ss) out"
            "q = that'\<lparr>segs := Some ((acc @ map SEG_LINE ps) @ out)\<rparr>"
            unfolding SEG_BEZIER by blast
          have "flattened (within_line fl) (Some (ss ! (i - 1))) (drop i ss) (map SEG_LINE ps @ out)"
            unfolding d SEG_BEZIER by (rule flattened.curve [OF ps(1) o(1)])
          moreover have "q = that\<lparr>segs := Some (acc @ map SEG_LINE ps @ out)\<rparr>"
            using o(2) ps(2) by simp
          ultimately show "\<exists>out. flattened (within_line fl) (Some (ss ! (i - 1))) (drop i ss) out \<and>
               q = that\<lparr>segs := Some (acc @ out)\<rparr>" by blast
        next
          assume "\<exists>out. flattened (within_line fl) (Some (ss ! (i - 1))) (drop i ss) out \<and>
               q = that\<lparr>segs := Some (acc @ out)\<rparr>"
          then obtain out where o:
            "flattened (within_line fl) (Some (ss ! (i - 1))) (SEG_BEZIER p cp1 cp2 # drop (Suc i) ss) out"
            "q = that\<lparr>segs := Some (acc @ out)\<rparr>"
            unfolding d SEG_BEZIER by blast
          from o(1) obtain ps' out' where p':
            "subdivides (within_line fl) (points0 (ss ! (i - 1))) cp1 cp2 p ps'"
            "flattened (within_line fl) (Some (SEG_BEZIER p cp1 cp2)) (drop (Suc i) ss) out'"
            "out = map SEG_LINE ps' @ out'"
            unfolding flattened_curve by blast
          from uniq [OF p'(1)] have e: "ps' = ps" .
          have "q = that'\<lparr>segs := Some ((acc @ map SEG_LINE ps) @ out')\<rparr>"
            using o(2) p'(3) ps(2) e by simp
          with p'(2) show "\<exists>out. flattened (within_line fl) (Some (ss ! i)) (drop (Suc i) ss) out \<and>
               q = that'\<lparr>segs := Some ((acc @ map SEG_LINE ps) @ out)\<rparr>"
            unfolding SEG_BEZIER by blast
        qed
        finally show ?thesis using False by simp
      qed
    qed
  qed
qed

lemma flatness_used_eq:
  "(case flatness of None \<Rightarrow> Finite 1 | Some f \<Rightarrow> if falsy f then Finite 1 else f)
     = flatness_used flatness"
  by (simp add: flatness_used_def falsy_def split: option.splits)

lemma flatten_iff:
  assumes "\<not> flat this"
  shows "flatten flatness this = Some (Inr q) \<longleftrightarrow>
     (\<exists>out. flattened (within_line (flatness_used flatness)) None (segments this) out \<and>
            q = this\<lparr>segs := Some out\<rparr>)"
proof -
  have s: "segs (this\<lparr>segs := Some []\<rparr>) = Some []" by simp
  have f: "flatten flatness this = flatten_loop (flatness_used flatness) (segments this) 0
             (this\<lparr>segs := Some []\<rparr>)"
    using assms unfolding flatten_def flatness_used_eq by (simp only: if_False)
  from flatten_loop_iff [OF _ s, of 0 "segments this" "flatness_used flatness" q]
  show ?thesis unfolding f by (simp del: flatten_loop.simps)
qed

lemma subdivides_nonempty: "subdivides near a b c d ps \<Longrightarrow> ps \<noteq> []"
  by (induction rule: subdivides.induct) auto

lemma flattened_flat: "flattened near prev ss out \<Longrightarrow> list_all (\<lambda>s. \<not> is_bezier s) out"
  by (induction rule: flattened.induct) (auto simp: list_all_iff)

lemmas flatten_eval = flatten_def flat_def doubles_def segments_def addCurve.simps
  Line_distance_def Line_def Line_start_def Line_end_def Vector_distance_def
  weightCurve_def weigh_def bezierLeft_def bezierRight_def quot_eighths lineTo_def
  dsub_def dle_def rnd_small Let_def

lemma flatten_arch:
  "flatten None arch =
     Some (Inr \<lparr>segs = Some [SEG_MOVE (doubles (Vector 0 0)), SEG_LINE (doubles (Vector 1 0)),
                               SEG_LINE (doubles (Vector 2 0))]\<rparr>)"
  by (simp add: arch_def flatten_eval)

lemma flatten_low_arch:
  "flatten None low_arch =
     Some (Inr \<lparr>segs = Some [SEG_MOVE (doubles (Vector 0 0)), SEG_LINE (doubles (Vector 1 0))]\<rparr>)"
  by (simp add: low_arch_def flatten_eval)

lemma flatten_overshoot:
  "flatten None overshoot =
     Some (Inr \<lparr>segs = Some [SEG_MOVE (doubles (Vector 0 0)), SEG_LINE (doubles (Vector 1 0))]\<rparr>)"
  by (simp add: overshoot_def flatten_eval)

text \<open>
  The distance that is tested is the computed one. In the path \<open>tilted\<close> the exact distance
  of the first inner control point from the line is more than the flatness 1, but the rounded
  quotient is 1, and \<open>flatten\<close> emits the single line.
\<close>

lemma flatten_tilted:
  "flatten None tilted =
     Some (Inr \<lparr>segs = Some [SEG_MOVE (doubles (Vector 0 0)), SEG_LINE (doubles (Vector 1 1))]\<rparr>) \<and>
   1 < exact_gap (Vector 0 0) (Vector 1 1) (Vector 0 root2)"
proof -
  have "sqrt 2 < root2"
    by (rule real_less_lsqrt) (simp_all add: root2_def power2_eq_square)
  then have "1 < root2 / sqrt 2" by simp
  moreover have "root2 \<noteq> 0" "\<bar>root2\<bar> = root2" using root2_pos by simp_all
  then have "flatten None tilted =
     Some (Inr \<lparr>segs = Some [SEG_MOVE (doubles (Vector 0 0)), SEG_LINE (doubles (Vector 1 1))]\<rparr>)"
    by (simp add: tilted_def flatten_eval rnd_sqrt2 root2_exact)
  ultimately show ?thesis unfolding exact_gap_tilted by simp
qed

text \<open>
  The recursion need not end. In the path \<open>stuck\<close> the second inner control point is at
  distance 2 from the end points, which coincide, and the control points of the left half,
  once rounded, are those of the curve itself: \<open>addCurve\<close> calls itself with its own
  arguments, and \<open>flatten\<close> does not return.
\<close>

lemma rnd_stuck:
  "rnd 9007199254740994 = Finite 9007199254740994"
  "rnd (13510798882111491 / 2) = Finite 6755399441055746"
  "rnd (13510798882111491 / 4) = Finite 3377699720527873"
  "rnd (18014398509481989 / 4) = Finite 4503599627370497"
  "rnd (15762598695796741 / 2) = Finite 7881299347898370"
  "rnd (36028797018963977 / 4) = Finite 9007199254740994"
proof -
  show "rnd 9007199254740994 = Finite 9007199254740994"
    by (subst rnd_high [where k = 1]) (simp_all add: round_even_def)
  show "rnd (13510798882111491 / 2) = Finite 6755399441055746"
    by (subst rnd_high [where k = 0]) (simp_all add: round_even_def)
  show "rnd (13510798882111491 / 4) = Finite 3377699720527873"
    by (subst rnd_low [where k = 1]) (simp_all add: round_even_def)
  show "rnd (18014398509481989 / 4) = Finite 4503599627370497"
    by (subst rnd_high [where k = 0]) (simp_all add: round_even_def)
  show "rnd (15762598695796741 / 2) = Finite 7881299347898370"
    by (subst rnd_high [where k = 0]) (simp_all add: round_even_def)
  show "rnd (36028797018963977 / 4) = Finite 9007199254740994"
    by (subst rnd_high [where k = 1]) (simp_all add: round_even_def)
qed

lemma stuck_left_half:
  fixes a c :: "double vector"
  defines "a \<equiv> doubles (Vector 0 9007199254740994)"
      and "c \<equiv> doubles (Vector 0 9007199254740996)"
  shows "weightCurve (bezierLeft ! 1) a a c a = a"
    and "weightCurve (bezierLeft ! Suc 0) a a c a = a"
    and "weightCurve (bezierLeft ! 2) a a c a = c"
    and "weightCurve (bezierLeft ! 3) a a c a = a"
    and "\<not> dle (Line_distance (Line (vx a) (vy a) (vx a) (vy a)) (vx c) (vy c)) (Finite 1)"
  unfolding a_def c_def
  by (simp_all add: weights_blend blend_def doubles_def rnd_stuck rnd_big rnd_small
        Line_distance_def Line_def Line_start_def Line_end_def Vector_distance_def segments_def
        dsub_def dle_def Let_def)


lemma addCurve_stuck:
  "addCurve (Finite 1) (doubles (Vector 0 9007199254740994)) (doubles (Vector 0 9007199254740994))
     (doubles (Vector 0 9007199254740996)) (doubles (Vector 0 9007199254740994)) that = None"
proof (rule ccontr)
  let ?a = "doubles (Vector 0 9007199254740994)" and ?c = "doubles (Vector 0 9007199254740996)"
  assume "addCurve (Finite 1) ?a ?a ?c ?a that \<noteq> None"
  then obtain q where q: "addCurve (Finite 1) ?a ?a ?c ?a that = Some q" by blast
  have "\<not> (Finite 1 = Finite 1 \<and> ?a = ?a \<and> ?a = ?a \<and> ?c = ?c \<and> ?a = ?a)"
  proof (rule addCurve.raw_induct [where P = "\<lambda>fl a b c d that q.
      \<not> (fl = Finite 1 \<and> a = ?a \<and> b = ?a \<and> c = ?c \<and> d = ?a)", OF _ q], goal_cases)
    case (1 f fl a b c d that q)
    note IH = 1(1) and body = 1(2)
    show ?case
    proof
      assume e: "fl = Finite 1 \<and> a = ?a \<and> b = ?a \<and> c = ?c \<and> d = ?a"
      from body obtain that' where "f (Finite 1) ?a ?a ?c ?a that = Some that'"
        unfolding e [THEN conjunct1] e [THEN conjunct2, THEN conjunct1]
          e [THEN conjunct2, THEN conjunct2, THEN conjunct1]
          e [THEN conjunct2, THEN conjunct2, THEN conjunct2, THEN conjunct1]
          e [THEN conjunct2, THEN conjunct2, THEN conjunct2, THEN conjunct2]
        by (simp add: stuck_left_half split: bind_splits if_splits)
      from IH [OF this] show False by simp
    qed
  qed
  then show False by simp
qed

lemma flatten_stuck: "\<not> flat stuck \<and> flatten None stuck = None"
  by (simp add: flatten_def flat_def stuck_def segments_def addCurve_stuck)

lemma not_chord_test_overshoot:
  "\<not> chord_test 1 (doubles (Vector 0 0)) (doubles (Vector 1 0)) (doubles (Vector 100 0))"
proof
  assume "chord_test 1 (doubles (Vector 0 0)) (doubles (Vector 1 0)) (doubles (Vector 100 0))"
  then obtain u :: real where u: "0 \<le> u" "u \<le> 1" "sqrt ((100 - u) * (100 - u)) \<le> 1"
    by (auto simp: chord_test_def near_chord_def on_line_def reals_def doubles_def)
  have "sqrt ((100 - u) * (100 - u)) = \<bar>100 - u\<bar>" by (rule real_sqrt_abs2)
  with u show False by simp
qed

text \<open>
  C6, as amended. For every path that contains a Bezier segment, \<open>flatten(flatness)\<close> works
  with the flatness 1 when the argument is left out, 0 or \<open>NaN\<close>, and returns normally exactly
  when the recursion of the specification ends on every cubic; it then leaves the path with
  each Bezier segment replaced by the lines the recursion emits: a single line to the end point
  when, for both inner control points, the distance from the infinite line through the end
  points of the cubic (from the start point, when the end points coincide), computed by the
  cross product formula in double arithmetic, is at most the flatness, and otherwise the lines
  of the left half followed by those of the right half of the split at the midpoint, whose
  control points are weighted sums in double arithmetic. A Bezier segment at the head of the
  path has no start point, and \<open>flatten\<close> throws there.
\<close>

theorem flatten_subdivides:
  assumes "\<not> flat this"
  shows "flatten flatness this = Some (Inr q) \<longleftrightarrow>
     (\<exists>out. flattened (within_line (flatness_used flatness)) None (segments this) out \<and>
            q = this\<lparr>segs := Some out\<rparr>)"
  using assms by (rule flatten_iff)

theorem flatten_subdivides_witness:
  "\<not> flat arch \<and> flatness_used None = Finite 1 \<and>
   flattened (within_line (Finite 1)) None (segments arch)
     [SEG_MOVE (doubles (Vector 0 0)), SEG_LINE (doubles (Vector 1 0)),
      SEG_LINE (doubles (Vector 2 0))]"
proof -
  have nf: "\<not> flat arch" by (simp add: flat_def arch_def segments_def)
  from flatten_subdivides [OF nf, of None] flatten_arch
  obtain out where
    "flattened (within_line (flatness_used None)) None (segments arch) out"
    "\<lparr>segs = Some [SEG_MOVE (doubles (Vector 0 0)), SEG_LINE (doubles (Vector 1 0)),
                   SEG_LINE (doubles (Vector 2 0))]\<rparr>
       = arch\<lparr>segs := Some out\<rparr>"
    by blast
  then show ?thesis using nf by (simp add: arch_def flatness_used_def)
qed

text \<open>
  The test is not the distance to the chord. In the path \<open>overshoot\<close> the inner control point
  \<open>(100, 0)\<close> is at distance 99 from the chord from \<open>(0, 0)\<close> to \<open>(1, 0)\<close>, yet on the
  line through it: \<open>flatten\<close> emits the single line, which the recursion with the distance
  to the chord does not.
\<close>

theorem flatten_chord_counterexample:
  "\<not> flat overshoot \<and> flatness_used None = Finite 1 \<and>
   flatten None overshoot
     = Some (Inr (overshoot\<lparr>segs := Some [SEG_MOVE (doubles (Vector 0 0)),
                                              SEG_LINE (doubles (Vector 1 0))]\<rparr>)) \<and>
   \<not> flattened (chord_test 1) None (segments overshoot)
       [SEG_MOVE (doubles (Vector 0 0)), SEG_LINE (doubles (Vector 1 0))]"
proof -
  let ?a = "doubles (Vector 0 0)" and ?b = "doubles (Vector 100 0)"
  let ?c = "doubles (Vector (- 100) 0)" and ?d = "doubles (Vector 1 0)"
  have ns: "\<not> subdivides (chord_test 1) ?a ?b ?c ?d [p]" for p
  proof
    assume "subdivides (chord_test 1) ?a ?b ?c ?d [p]"
    then show False
    proof (cases rule: subdivides.cases)
      case emit
      with not_chord_test_overshoot show False by simp
    next
      case (split ls rs)
      from subdivides_nonempty [OF split(3)] subdivides_nonempty [OF split(4)] split(1)
      show False by (cases ls; cases rs) auto
    qed
  qed
  have "\<not> flattened (chord_test 1) None (segments overshoot) [SEG_MOVE ?a, SEG_LINE ?d]"
  proof
    assume "flattened (chord_test 1) None (segments overshoot) [SEG_MOVE ?a, SEG_LINE ?d]"
    then have "flattened (chord_test 1) None [SEG_MOVE ?a, SEG_BEZIER ?d ?b ?c]
       [SEG_MOVE ?a, SEG_LINE ?d]"
      by (simp add: overshoot_def segments_def)
    then have "flattened (chord_test 1) (Some (SEG_MOVE ?a)) [SEG_BEZIER ?d ?b ?c] [SEG_LINE ?d]"
      by (simp add: flattened_keep)
    then obtain ps out' where
      ps: "subdivides (chord_test 1) ?a ?b ?c ?d ps"
          "flattened (chord_test 1) (Some (SEG_BEZIER ?d ?b ?c)) [] out'"
          "[SEG_LINE ?d] = map SEG_LINE ps @ out'"
      unfolding flattened_curve by auto
    from ps(2) have "out' = []" by (simp add: flattened_Nil)
    with ps(3) have "ps = [?d]" by (cases ps) auto
    with ps(1) ns show False by simp
  qed
  moreover have "\<not> flat overshoot" by (simp add: flat_def overshoot_def segments_def)
  moreover have "flatten None overshoot
     = Some (Inr (overshoot\<lparr>segs := Some [SEG_MOVE ?a, SEG_LINE ?d]\<rparr>))"
    unfolding flatten_overshoot by (simp add: overshoot_def)
  ultimately show ?thesis
    by (simp add: flatness_used_def)
qed

lemma touch_idem: "segs this = Some ss \<Longrightarrow> touch this = this"
  by (simp add: touch_def segments_def)

text \<open>
  C7. For every path on which \<open>flatten\<close> returns, the result holds no Bezier segment, and
  \<open>flatten\<close> applied to the result (with any flatness) returns it unchanged.
\<close>

theorem flatten_idempotent:
  assumes "flatten f1 this = Some (Inr q)"
  shows "flat q \<and> flatten f2 q = Some (Inr q)"
proof (cases "flat this")
  case True
  with assms have q: "q = touch this" by (simp add: flatten_def)
  have "segments (touch this) = segments this" by (simp add: touch_def segments_def)
  with True have f: "flat q" by (simp add: q flat_def)
  have "touch q = q" unfolding q by (simp add: touch_def segments_def)
  with f show ?thesis by (simp add: flatten_def)
next
  case False
  from assms flatten_iff [OF False] obtain out where
    out: "flattened (within_line (flatness_used f1)) None (segments this) out"
         "q = this\<lparr>segs := Some out\<rparr>" by blast
  from flattened_flat [OF out(1)] out(2) have f: "flat q"
    by (simp add: flat_def segments_def)
  have "touch q = q" using out(2) by (simp add: touch_def segments_def)
  with f show ?thesis by (simp add: flatten_def)
qed

theorem flatten_idempotent_witness:
  "flatten None low_arch
     = Some (Inr \<lparr>segs = Some [SEG_MOVE (doubles (Vector 0 0)), SEG_LINE (doubles (Vector 1 0))]\<rparr>) \<and>
   flatten None \<lparr>segs = Some [SEG_MOVE (doubles (Vector 0 0)), SEG_LINE (doubles (Vector 1 0))]\<rparr>
     = Some (Inr \<lparr>segs = Some [SEG_MOVE (doubles (Vector 0 0)), SEG_LINE (doubles (Vector 1 0))]\<rparr>)"
  using flatten_idempotent [OF flatten_low_arch, of None] flatten_low_arch by simp

section \<open>Straightening a spline\<close>

lemma straighten_step_cells:
  assumes "z ! 0 \<noteq> z ! i"
  shows "straighten_step beta z e dx dy i h =
           h\<lparr>cells := (cells h)(z ! i :=
              Vector (towards beta (vx (cells h (z ! i))) (vx (cells h (z ! 0))) i dx e)
                     (towards beta (vy (cells h (z ! i))) (vy (cells h (z ! 0))) i dy e))\<rparr>"
  using assms by (simp add: straighten_step_def Let_def)

lemma straighten_loop:
  assumes inner: "\<And>i j. 1 \<le> i \<Longrightarrow> i < e \<Longrightarrow> j < i \<Longrightarrow> z ! i \<noteq> z ! j"
  shows "k \<le> e \<Longrightarrow>
     (\<forall>j. 1 \<le> j \<and> j < k \<longrightarrow>
        cells (fold (straighten_step beta z e dx dy) [1 ..< k] h) (z ! j) =
          Vector (towards beta (vx (cells h (z ! j))) (vx (cells h (z ! 0))) j dx e)
                 (towards beta (vy (cells h (z ! j))) (vy (cells h (z ! 0))) j dy e)) \<and>
     (\<forall>r. (\<forall>j. 1 \<le> j \<and> j < k \<longrightarrow> r \<noteq> z ! j) \<longrightarrow>
        cells (fold (straighten_step beta z e dx dy) [1 ..< k] h) r = cells h r) \<and>
     fresh (fold (straighten_step beta z e dx dy) [1 ..< k] h) = fresh h"
proof (induction k)
  case 0
  show ?case by simp
next
  case (Suc k)
  show ?case
  proof (cases "k = 0")
    case True
    then show ?thesis by simp
  next
    case False
    then have k1: "1 \<le> k" by simp
    from Suc.prems have ke: "k < e" and kle: "k \<le> e" by simp_all
    let ?F = "fold (straighten_step beta z e dx dy) [1 ..< k] h"
    note IH = Suc.IH [OF kle]
    have upt: "[1 ..< Suc k] = [1 ..< k] @ [k]" using k1 by simp
    have z0: "z ! 0 \<noteq> z ! k" using inner [OF k1 ke, of 0] k1 by auto
    have old_k: "cells ?F (z ! k) = cells h (z ! k)"
      using IH inner [OF k1 ke] by (metis nat_neq_iff)
    have old_0: "cells ?F (z ! 0) = cells h (z ! 0)"
    proof -
      have "z ! 0 \<noteq> z ! j" if "1 \<le> j \<and> j < k" for j
        using inner [of j 0] that ke by auto
      with IH show ?thesis by blast
    qed
    have step: "fold (straighten_step beta z e dx dy) [1 ..< Suc k] h =
        ?F\<lparr>cells := (cells ?F)(z ! k :=
              Vector (towards beta (vx (cells h (z ! k))) (vx (cells h (z ! 0))) k dx e)
                     (towards beta (vy (cells h (z ! k))) (vy (cells h (z ! 0))) k dy e))\<rparr>"
      unfolding upt fold_append comp_apply fold_simps
      by (simp only: straighten_step_cells [OF z0] old_k old_0)
    show ?thesis
    proof (intro conjI allI impI)
      fix j assume j: "1 \<le> j \<and> j < Suc k"
      show "cells (fold (straighten_step beta z e dx dy) [1 ..< Suc k] h) (z ! j) =
          Vector (towards beta (vx (cells h (z ! j))) (vx (cells h (z ! 0))) j dx e)
                 (towards beta (vy (cells h (z ! j))) (vy (cells h (z ! 0))) j dy e)"
      proof (cases "j = k")
        case True
        then show ?thesis unfolding step by simp
      next
        case False
        with j have jk: "j < k" by simp
        with inner [OF k1 ke jk] have "z ! j \<noteq> z ! k" by simp
        with IH j jk show ?thesis unfolding step by simp
      qed
    next
      fix r assume r: "\<forall>j. 1 \<le> j \<and> j < Suc k \<longrightarrow> r \<noteq> z ! j"
      then have "r \<noteq> z ! k" using k1 by simp
      moreover from r have "\<forall>j. 1 \<le> j \<and> j < k \<longrightarrow> r \<noteq> z ! j" by simp
      ultimately show "cells (fold (straighten_step beta z e dx dy) [1 ..< Suc k] h) r = cells h r"
        using IH unfolding step by simp
    next
      show "fresh (fold (straighten_step beta z e dx dy) [1 ..< Suc k] h) = fresh h"
        using IH unfolding step by simp
    qed
  qed
qed


lemma straighten_distinct:
  assumes N: "2 \<le> length (points s)"
      and d1: "distinct (butlast (points s))" and d2: "distinct (tl (points s))"
  shows "\<exists>h'. straighten beta (h, s) = Inr (h', s\<lparr>segs := None\<rparr>) \<and>
           (\<forall>i < length (points s).
              cells h' (points s ! i) =
                (if 0 < i \<and> i < length (points s) - 1
                 then Vector
                        (towards beta (vx (cells h (points s ! i))) (vx (cells h (points s ! 0))) i
                           (dsub (vx (cells h (points s ! (length (points s) - 1))))
                              (vx (cells h (points s ! 0))))
                           (length (points s) - 1))
                        (towards beta (vy (cells h (points s ! i))) (vy (cells h (points s ! 0))) i
                           (dsub (vy (cells h (points s ! (length (points s) - 1))))
                              (vy (cells h (points s ! 0))))
                           (length (points s) - 1))
                 else cells h (points s ! i)))"
proof -
  define z where "z = points s"
  define e where "e = length z - 1"
  define dx where "dx = dsub (vx (cells h (z ! e))) (vx (cells h (z ! 0)))"
  define dy where "dy = dsub (vy (cells h (z ! e))) (vy (cells h (z ! 0)))"
  define h' where "h' = fold (straighten_step beta z e dx dy) [1 ..< e] h"
  have zne: "z \<noteq> []" and e1: "1 \<le> e" and len: "length z = Suc e"
    using N by (auto simp: z_def e_def)
  have res: "straighten beta (h, s) = Inr (h', s\<lparr>segs := None\<rparr>)"
    using zne by (simp add: straighten_def Let_def h'_def dx_def dy_def e_def z_def)
  have bl: "butlast z ! i = z ! i" if "i < e" for i
    using that len by (simp add: nth_butlast)
  have tl: "tl z ! i = z ! Suc i" if "i < e" for i
    using that len by (simp add: nth_tl)
  have inner: "z ! i \<noteq> z ! j" if "1 \<le> i" "i < e" "j < i" for i j
  proof -
    from that have "i < length (butlast z)" "j < length (butlast z)" "i \<noteq> j"
      using len by simp_all
    with d1 have "butlast z ! i \<noteq> butlast z ! j"
      unfolding z_def [symmetric] by (simp add: nth_eq_iff_index_eq)
    with that show ?thesis by (simp add: bl)
  qed
  have last_ne: "z ! i \<noteq> z ! e" if "1 \<le> i" "i < e" for i
  proof -
    from that have "i - 1 < length (tl z)" "e - 1 < length (tl z)" "i - 1 \<noteq> e - 1"
      using len by simp_all
    with d2 have "tl z ! (i - 1) \<noteq> tl z ! (e - 1)"
      unfolding z_def [symmetric] by (simp add: nth_eq_iff_index_eq)
    with that e1 show ?thesis by (simp add: tl)
  qed
  note L = straighten_loop [where e = e and z = z and k = e and beta = beta and dx = dx
      and dy = dy and h = h, OF inner order_refl, folded h'_def]
  have new: "cells h' (z ! i) =
          Vector (towards beta (vx (cells h (z ! i))) (vx (cells h (z ! 0))) i dx e)
                 (towards beta (vy (cells h (z ! i))) (vy (cells h (z ! 0))) i dy e)"
    if "0 < i" "i < e" for i
    using L that by simp
  have first: "cells h' (z ! 0) = cells h (z ! 0)"
  proof -
    have "\<forall>j. Suc 0 \<le> j \<and> j < e \<longrightarrow> z ! 0 \<noteq> z ! j"
      using inner by (metis One_nat_def less_eq_Suc_le)
    with L show ?thesis by simp
  qed
  have lst: "cells h' (z ! e) = cells h (z ! e)"
  proof -
    have "\<forall>j. Suc 0 \<le> j \<and> j < e \<longrightarrow> z ! e \<noteq> z ! j"
      using last_ne by (metis One_nat_def)
    with L show ?thesis by simp
  qed
  have all: "cells h' (z ! i) =
                (if 0 < i \<and> i < length z - 1
                 then Vector (towards beta (vx (cells h (z ! i))) (vx (cells h (z ! 0))) i dx e)
                        (towards beta (vy (cells h (z ! i))) (vy (cells h (z ! 0))) i dy e)
                 else cells h (z ! i))" if "i < length z" for i
  proof -
    from that len consider "i = 0" | "0 < i" "i < e" | "i = e" by force
    then show ?thesis
    proof cases
      case 1 then show ?thesis using first by simp
    next
      case 2 then show ?thesis using new len by simp
    next
      case 3 then show ?thesis using lst len by simp
    qed
  qed
  show ?thesis
    unfolding z_def [symmetric]
    using res all by (intro exI [of _ h']) (simp add: dx_def dy_def e_def)
qed

text \<open>
  With \<open>beta = 1\<close> the formula gives the point itself, unless the point on the line is not
  finite (the difference of the end points may overflow): then it gives \<open>NaN\<close>.
\<close>

lemma towards_one:
  assumes "exact p"
  shows "towards (Finite 1) (Finite p) z0 i d e =
           (case dadd z0 (ddiv (dmul (Finite (real i)) d) (Finite (real e))) of
              Finite x \<Rightarrow> Finite p | PosInf \<Rightarrow> NaN | NegInf \<Rightarrow> NaN | NaN \<Rightarrow> NaN)"
  using assms
  by (cases "dadd z0 (ddiv (dmul (Finite (real i)) d) (Finite (real e)))")
     (simp_all add: towards_def dsub_def exact_def rnd_small)

text \<open>
  With three Vector objects of its own, \<open>straighten(0.5)\<close> moves the inner control point
  \<open>(1, 4)\<close> halfway to the middle \<open>(2, 0)\<close> of the line and leaves the two others.
\<close>

lemma straighten_bent:
  "\<exists>h'. straighten (Finite (1/2)) (three_vectors, bent_spline) = Inr (h', bent_spline\<lparr>segs := None\<rparr>) \<and>
         cells h' 0 = doubles (Vector 0 0) \<and> cells h' 1 = doubles (Vector (3/2) 2) \<and>
         cells h' 2 = doubles (Vector 4 0)"
  by (simp add: straighten_def straighten_step_def towards_def bent_spline_def addAll_def
        BasisSpline_def three_vectors_def doubles_def dsub_def rnd_small Let_def)

text \<open>
  The Vector objects that \<open>straighten\<close> changes are the caller's. The router passes the
  position objects of the layout: after \<open>_spline(3, 5)\<close> with \<open>beta = 0\<close> on the tree
  \<open>scenario\<close>, the position of A in the layout \<open>placed\<close> has moved from \<open>(0, 4)\<close> to
  \<open>(2, 0)\<close>.
\<close>

lemma spline_of_moves_position:
  "\<exists>h' s. spline_of scenario placed (Finite 0) six_positions 3 5 = Some (Inr (h', s)) \<and>
          points s = [3, 1, 0, 2, 5] \<and>
          position placed 1 = Some 1 \<and>
          cells six_positions 1 = doubles (Vector 0 4) \<and> cells h' 1 = doubles (Vector 2 0)"
  unfolding scenario_eq
  by (simp add: spline_of_def spline_points_def nodes_at_def leastCommonAncestor_def ancestors_def
        ancestors_loop.simps lca_loop.simps pop_def obj_def climb_start.simps climb_end.simps
        transformPoint_def position_def placed_def CircleLayout_def six_positions_def
        straighten_def straighten_step_def towards_def addAll_def BasisSpline_def doubles_def
        dsub_def rnd_small Let_def eval_nat_numeral)

text \<open>
  C8. The spline \<open>new BasisSpline().addAll([v, v, w])\<close> with \<open>v = (0, 0)\<close> and \<open>w = (2, 0)\<close>
  has three control points, the first and the second being one Vector object.
  \<open>straighten(0)\<close> returns and moves the first control point from \<open>(0, 0)\<close> to \<open>(1, 0)\<close>.
\<close>

theorem straighten_moves_first_point:
  "length (points aliased_spline) = 3 \<and>
   (\<exists>h'. straighten (Finite 0) (two_vectors, aliased_spline)
            = Inr (h', aliased_spline\<lparr>segs := None\<rparr>) \<and>
         cells two_vectors (points aliased_spline ! 0) = doubles (Vector 0 0) \<and>
         cells h' (points aliased_spline ! 0) = doubles (Vector 1 0))"
  by (simp add: straighten_def straighten_step_def towards_def aliased_spline_def addAll_def
        BasisSpline_def two_vectors_def doubles_def dsub_def rnd_small Let_def)

section \<open>Degenerate splines and self-loops\<close>

lemma segments_by_count:
  assumes "segs this = None"
  shows "fst (BasisSpline_segments h (this\<lparr>points := []\<rparr>)) = []"
    and "fst (BasisSpline_segments h (this\<lparr>points := [p]\<rparr>)) = [SEG_MOVE (cells h p)]"
    and "fst (BasisSpline_segments h (this\<lparr>points := [p, p']\<rparr>))
           = [SEG_MOVE (cells h p), SEG_LINE (cells h p')]"
  using assms
  by (simp_all add: BasisSpline_segments_def moveTo_def lineTo_def segments_def Let_def)

lemma spline_points_self:
  "spline_points t l i i = Some (Inr (nodes_at t i, [position l i]))"
  by (simp add: spline_points_def Let_def climb_start.simps climb_end.simps transformPoint_def)

lemma spline_of_self:
  assumes "position l i = Some q"
  shows "spline_of t l beta h i i =
           Some (Inr (h, \<lparr>segs = None, points = [q], tag_start = Some i, tag_end = Some i\<rparr>))"
  using assms
  by (simp add: spline_of_def spline_points_self straighten_def addAll_def BasisSpline_def Let_def)

text \<open>
  With a position for \<open>i\<close> in the layout and the cached segments unset, the spline of the
  self-loop is the single move to that position.
\<close>

lemma spline_of_self_segments:
  assumes "position l i = Some q"
  shows "\<exists>s. spline_of t l beta h i i = Some (Inr (h, s)) \<and> points s = [q] \<and>
             fst (BasisSpline_segments h s) = [SEG_MOVE (cells h q)]"
  unfolding spline_of_self [OF assms]
  by (simp add: BasisSpline_segments_def moveTo_def segments_def Let_def)

subsection \<open>A self-loop on a node that \<open>removeChild\<close> left behind\<close>

lemma looped_eq:
  "looped =
     \<lparr>heap = [\<lparr>outgoing = [], incoming = [], children = [1], index = 0, parent = None\<rparr>,
              \<lparr>outgoing = [], incoming = [], children = [2, 3], index = 1, parent = Some 0\<rparr>,
              \<lparr>outgoing = [], incoming = [], children = [], index = 2, parent = Some 1\<rparr>,
              \<lparr>outgoing = [3], incoming = [3], children = [], index = 3, parent = Some 1\<rparr>],
      nodes = [0, 1, 2, 3], root_node = 0\<rparr>"
  unfolding looped_def family_eq by (simp add: addEdge_def upd_def obj_def Let_def)

lemma removeChild_looped:
  "removeChild looped 0 1 =
     Some \<lparr>heap = [\<lparr>outgoing = [], incoming = [], children = [], index = 0, parent = None\<rparr>,
                   \<lparr>outgoing = [], incoming = [], children = [3], index = 1, parent = Some 0\<rparr>,
                   \<lparr>outgoing = [], incoming = [], children = [], index = 2, parent = Some 1\<rparr>,
                   \<lparr>outgoing = [3], incoming = [3], children = [], index = 1, parent = Some 1\<rparr>],
           nodes = [0, 3], root_node = 0\<rparr>"
  unfolding looped_eq removeChild_def
  by (simp add: run.simps clearEdges_def unlink_def renumber_def upd_def obj_def splice1_def
        Let_def)

lemma built_family: "built family"
proof -
  have l0: "live Tree 0" by (simp add: live_def Tree_def clear_def Node_def)
  have b1: "built (snd (addChild Tree 0))" by (rule built.child [OF built.new l0])
  have l1: "live (snd (addChild Tree 0)) 1"
    by (simp add: live_def Tree_def clear_def Node_def addChild_def upd_def Let_def)
  have b2: "built (snd (addChild (snd (addChild Tree 0)) 1))" by (rule built.child [OF b1 l1])
  have l2: "live (snd (addChild (snd (addChild Tree 0)) 1)) 1"
    by (simp add: live_def Tree_def clear_def Node_def addChild_def upd_def Let_def)
  have b3: "built (snd (addChild (snd (addChild (snd (addChild Tree 0)) 1)) 1))"
    by (rule built.child [OF b2 l2])
  have "family = snd (addChild (snd (addChild (snd (addChild Tree 0)) 1)) 1)"
    by (simp add: family_def Tree_def clear_def Node_def addChild_def upd_def Let_def)
  with b3 show ?thesis by simp
qed


text \<open>
  C9. After \<open>g2.addEdge(g2)\<close> on the second grandchild of the tree \<open>family\<close> and
  \<open>root.removeChild(c)\<close>, the node table still holds \<open>g2\<close> (object 3), now at index 1, with
  its edge to itself. The tree is built through the interface and \<open>layout.init()\<close> returns,
  but it places only the nodes it reaches from the root: the layout has no position for index
  1. For the self-loop \<open>_spline(1, 1)\<close> the points array is the one entry \<open>undefined\<close>, and
  \<open>straighten\<close> throws on it, for every store and every \<open>beta\<close>.
\<close>

theorem self_loop_of_orphan_throws:
  "\<exists>t cs st. removeChild looped 0 1 = Some t \<and> built t \<and>
      init t (h, CircleLayout) = Some (Inr (cs, st)) \<and>
      nodes_at t 1 = Some 3 \<and> index (obj t 3) = 1 \<and> outgoing (obj t 3) = [3] \<and>
      position (lay st) 1 = None \<and>
      spline_points t (lay st) 1 1 = Some (Inr (Some 3, [None])) \<and>
      spline_of t (lay st) beta hv 1 1 = Some (Inl TypeError)"
proof -
  define pruned where "pruned =
     \<lparr>heap = [\<lparr>outgoing = [], incoming = [], children = [], index = 0, parent = None\<rparr>,
              \<lparr>outgoing = [], incoming = [], children = [3], index = 1, parent = Some 0\<rparr>,
              \<lparr>outgoing = [], incoming = [], children = [], index = 2, parent = Some 1\<rparr>,
              \<lparr>outgoing = [3], incoming = [3], children = [], index = (1::nat), parent = Some (1::ref)\<rparr>],
      nodes = [0, 3], root_node = 0\<rparr>"
  define l where "l = CircleLayout\<lparr>positions := [0 \<mapsto> fresh h], angles := [0 \<mapsto> pi - pi / 2]\<rparr>"
  have rc: "removeChild looped 0 1 = Some pruned"
    unfolding removeChild_looped pruned_def ..
  have b: "built pruned"
    by (rule built.removed [OF built.edge [OF built_family] rc [unfolded looped_def]])
  have i: "init pruned (h, CircleLayout) =
     Some (Inr (\<lparr>maxDepth = 0, depthByNode = [0 \<mapsto> 0], countByNode = [0 \<mapsto> 1]\<rparr>,
                \<lparr>vectors = snd (new_Vector 0 0 h), lay = l, spans = [(0, 0, 2 * pi)]\<rparr>))"
    by (simp add: init_def pruned_def count_def count_run.simps placeAll_def place_run.simps
          place_def new_Vector_def order_def obj_def CircleLayout_def l_def Let_def)
  have n: "nodes_at pruned 1 = Some 3" "index (obj pruned 3) = 1" "outgoing (obj pruned 3) = [3]"
    by (simp_all add: pruned_def nodes_at_def obj_def)
  have p: "position l 1 = None" by (simp add: position_def l_def)
  from spline_points_self [of pruned l 1] n(1) p
  have sp: "spline_points pruned l 1 1 = Some (Inr (Some 3, [None]))" by simp
  then have so: "spline_of pruned l beta hv 1 1 = Some (Inl TypeError)"
    by (simp add: spline_of_def)
  from rc b i n p sp so show ?thesis by simp
qed

end
